theory Spec2Isabelle
  imports
    Complex_Main
    "HOL-Library.Sublist"
    "HOL-Library.Char_ord"
    "HOL-Library.List_Lexorder"
    "HOL-Library.Product_Lexorder"
begin

section \<open>Python values\<close>

text \<open>
  Both scripts work on documents returned by \<^verbatim>\<open>json.load\<close> / \<^verbatim>\<open>r.json()\<close>. A parsed
  document is a \<open>json\<close> value; an object keeps its members in document order, as a
  Python dict does, and is read with \<open>map_of\<close> (the parser leaves no key twice in a
  dict). Strings are lists of bytes (UTF-8). Python floats are idealised as exact reals:
  no rounding, no NaN; \<^verbatim>\<open>math.inf\<close> is the only non-finite float the scripts construct
  themselves and is a separate constructor of \<open>pyfloat\<close>.
\<close>

datatype json =
    JNull
  | JBool bool
  | JInt int
  | JFloat real
  | JStr string
  | JArr "json list"
  | JObj "(string \<times> json) list"

datatype py_error =
    AttributeError
  | TypeError
  | ValueError
  | KeyError
  | IndexError
  | JSONDecodeError
  | OSError

datatype pyfloat = Num real | Math_inf

instantiation pyfloat :: linorder
begin

fun less_eq_pyfloat :: "pyfloat \<Rightarrow> pyfloat \<Rightarrow> bool" where
  "less_eq_pyfloat (Num a) (Num b) = (a \<le> b)"
| "less_eq_pyfloat (Num a) Math_inf = True"
| "less_eq_pyfloat Math_inf (Num b) = False"
| "less_eq_pyfloat Math_inf Math_inf = True"

fun less_pyfloat :: "pyfloat \<Rightarrow> pyfloat \<Rightarrow> bool" where
  "less_pyfloat (Num a) (Num b) = (a < b)"
| "less_pyfloat (Num a) Math_inf = True"
| "less_pyfloat Math_inf (Num b) = False"
| "less_pyfloat Math_inf Math_inf = False"

instance
proof
  fix x y z :: pyfloat
  show "(x < y) = (x \<le> y \<and> \<not> y \<le> x)"
    by (cases x; cases y) auto
  show "x \<le> x"
    by (cases x) auto
  show "x \<le> y \<Longrightarrow> y \<le> z \<Longrightarrow> x \<le> z"
    by (cases x; cases y; cases z) auto
  show "x \<le> y \<Longrightarrow> y \<le> x \<Longrightarrow> x = y"
    by (cases x; cases y) auto
  show "x \<le> y \<or> y \<le> x"
    by (cases x; cases y) auto
qed

end

subsection \<open>Errors as values\<close>

text \<open>
  A computation that may raise returns \<open>py_error + 'a\<close>; \<open>Inl\<close> is the uncaught
  exception. \<open>and_then\<close> sequences two such computations, left to right, as Python
  evaluates them.
\<close>

definition and_then :: "py_error + 'a \<Rightarrow> ('a \<Rightarrow> py_error + 'b) \<Rightarrow> py_error + 'b" where
  "and_then x f = (case x of Inl e \<Rightarrow> Inl e | Inr a \<Rightarrow> f a)"

subsection \<open>Truthiness, dict access, strings\<close>

text \<open>Python's truth value of a parsed JSON value (\<^verbatim>\<open>if v:\<close>, \<^verbatim>\<open>a or b\<close>).\<close>

fun truthy :: "json \<Rightarrow> bool" where
  "truthy JNull = False"
| "truthy (JBool b) = b"
| "truthy (JInt n) = (n \<noteq> 0)"
| "truthy (JFloat r) = (r \<noteq> 0)"
| "truthy (JStr s) = (s \<noteq> [])"
| "truthy (JArr xs) = (xs \<noteq> [])"
| "truthy (JObj kvs) = (kvs \<noteq> [])"

text \<open>
  \<^verbatim>\<open>x.get(key, default)\<close>: only a dict has \<^verbatim>\<open>.get\<close>; on any other value the attribute
  lookup raises AttributeError. \<^verbatim>\<open>x.get(key)\<close> is \<open>py_get x key JNull\<close>.
\<close>

fun py_get :: "json \<Rightarrow> string \<Rightarrow> json \<Rightarrow> py_error + json" where
  "py_get (JObj kvs) k d = Inr (case map_of kvs k of None \<Rightarrow> d | Some v \<Rightarrow> v)"
| "py_get _ k d = Inl AttributeError"

text \<open>
  \<^verbatim>\<open>str.lower\<close> on the ASCII letters. Strings are UTF-8 byte lists; every byte of a
  character outside ASCII is at least 128 and is left as it is. No character outside
  ASCII lowers to one of the ASCII characters the scripts search for.
\<close>

definition lower_char :: "char \<Rightarrow> char" where
  "lower_char c =
     (case map_of (zip ''ABCDEFGHIJKLMNOPQRSTUVWXYZ'' ''abcdefghijklmnopqrstuvwxyz'') c of
        None \<Rightarrow> c
      | Some l \<Rightarrow> l)"

definition lower :: "string \<Rightarrow> string" where
  "lower s = map lower_char s"

definition startswith :: "string \<Rightarrow> string \<Rightarrow> bool" where
  "startswith s p = (take (length p) s = p)"

definition endswith :: "string \<Rightarrow> string \<Rightarrow> bool" where
  "endswith s p = (length p \<le> length s \<and> drop (length s - length p) s = p)"

text \<open>\<^verbatim>\<open>sub in s\<close> on strings.\<close>

fun str_contains :: "string \<Rightarrow> string \<Rightarrow> bool" where
  "str_contains sub [] = (sub = [])"
| "str_contains sub (c # cs) = (startswith (c # cs) sub \<or> str_contains sub cs)"

text \<open>\<^verbatim>\<open>s.split(sep)\<close> for a one-character separator.\<close>

fun split_on :: "char \<Rightarrow> string \<Rightarrow> string list" where
  "split_on sep [] = [[]]"
| "split_on sep (c # cs) =
     (if c = sep then [] # split_on sep cs
      else case split_on sep cs of
             [] \<Rightarrow> [[c]]
           | w # ws \<Rightarrow> (c # w) # ws)"

text \<open>\<^verbatim>\<open>xs[i]\<close> for \<open>i \<ge> 0\<close>: IndexError out of range.\<close>

definition py_index :: "'a list \<Rightarrow> nat \<Rightarrow> py_error + 'a" where
  "py_index xs i = (if i < length xs then Inr (xs ! i) else Inl IndexError)"

section \<open>Pipeline B: openrouter.py\<close>

subsection \<open>Constants and the score\<close>

definition BASE_CTX :: int where
  "BASE_CTX = 8000"

definition CTX_CAP :: int where
  "CTX_CAP = 524288"

definition W_IN :: real where
  "W_IN = 0.5"

definition W_OUT :: real where
  "W_OUT = 0.5"

text \<open>
  \<^verbatim>\<open>def score(p_in, p_out, ctx)\<close>: the prices are floats, the context is an int, and
  \<^verbatim>\<open>ctx_eff / BASE_CTX\<close> is Python's true division.
\<close>

definition score :: "real \<Rightarrow> real \<Rightarrow> int \<Rightarrow> pyfloat" where
  "score p_in p_out ctx =
     (if ctx \<le> 0 then Math_inf
      else
        let ctx_eff = min ctx CTX_CAP;
            avg = (W_IN * p_in) + (W_OUT * p_out);
            denom = real_of_int ctx_eff / real_of_int BASE_CTX
        in if denom > 0 then Num (avg / denom) else Math_inf)"

subsection \<open>The builtins \<^verbatim>\<open>float\<close> and \<^verbatim>\<open>int\<close>\<close>

text \<open>
  How Python parses a string as a float or an int is not part of the repository; the two
  parsers are parameters of the model. \<open>None\<close> is ValueError. A float parser returns a
  finite value here: the strings Python reads as \<^verbatim>\<open>inf\<close> or \<^verbatim>\<open>nan\<close> are outside the model,
  as is OverflowError on a huge int.
\<close>

record builtins =
  float_of_str :: "string \<Rightarrow> real option"
  int_of_str :: "string \<Rightarrow> int option"

text \<open>\<^verbatim>\<open>float(x)\<close>; \<open>None\<close> when it raises (ValueError or TypeError).\<close>

fun py_float :: "builtins \<Rightarrow> json \<Rightarrow> real option" where
  "py_float B JNull = None"
| "py_float B (JBool b) = Some (if b then 1 else 0)"
| "py_float B (JInt n) = Some (real_of_int n)"
| "py_float B (JFloat r) = Some r"
| "py_float B (JStr s) = float_of_str B s"
| "py_float B (JArr xs) = None"
| "py_float B (JObj kvs) = None"

text \<open>\<^verbatim>\<open>int(x)\<close>; a float is truncated towards zero.\<close>

fun py_int :: "builtins \<Rightarrow> json \<Rightarrow> py_error + int" where
  "py_int B JNull = Inl TypeError"
| "py_int B (JBool b) = Inr (if b then 1 else 0)"
| "py_int B (JInt n) = Inr n"
| "py_int B (JFloat r) = Inr (if 0 \<le> r then \<lfloor>r\<rfloor> else \<lceil>r\<rceil>)"
| "py_int B (JStr s) = (case int_of_str B s of None \<Rightarrow> Inl ValueError | Some n \<Rightarrow> Inr n)"
| "py_int B (JArr xs) = Inl TypeError"
| "py_int B (JObj kvs) = Inl TypeError"

text \<open>
  \<^verbatim>\<open>round(x, n)\<close> on a float: to the nearest multiple of \<open>10^-n\<close>, a tie to the even one.
\<close>

definition round_half_even :: "real \<Rightarrow> int" where
  "round_half_even x =
     (let f = \<lfloor>x\<rfloor>; d = x - real_of_int f
      in if d < 1 / 2 then f
         else if 1 / 2 < d then f + 1
         else if even f then f else f + 1)"

definition py_round :: "real \<Rightarrow> nat \<Rightarrow> real" where
  "py_round x n = real_of_int (round_half_even (x * 10 ^ n)) / 10 ^ n"

fun round_float :: "pyfloat \<Rightarrow> nat \<Rightarrow> pyfloat" where
  "round_float (Num x) n = Num (py_round x n)"
| "round_float Math_inf n = Math_inf"

subsection \<open>The helpers of the normalizer\<close>

text \<open>\<^verbatim>\<open>ffloat\<close>: the bare \<^verbatim>\<open>except\<close> turns every exception of \<^verbatim>\<open>float\<close> into None.\<close>

definition ffloat :: "builtins \<Rightarrow> json \<Rightarrow> real option" where
  "ffloat B x =
     (if x \<noteq> JNull \<and> x \<noteq> JStr [] \<and> x \<noteq> JStr ''null'' then py_float B x else None)"

text \<open>
  \<^verbatim>\<open>ctx_of\<close>: \<^verbatim>\<open>int(a or b or 0)\<close> with \<open>a\<close> the provider's context length and \<open>b\<close> the
  record's own. \<open>b\<close> is read only when \<open>a\<close> is falsy.
\<close>

definition ctx_of :: "builtins \<Rightarrow> json \<Rightarrow> py_error + int" where
  "ctx_of B m =
     and_then (py_get m ''top_provider'' (JObj [])) (\<lambda>tp.
     and_then (py_get tp ''context_length'' JNull) (\<lambda>a.
       if truthy a then py_int B a
       else and_then (py_get m ''context_length'' JNull) (\<lambda>b.
         if truthy b then py_int B b else py_int B (JInt 0))))"

text \<open>\<^verbatim>\<open>(x or "").lower()\<close>: a truthy value that is not a string has no \<^verbatim>\<open>lower\<close>.\<close>

definition lower_or_empty :: "json \<Rightarrow> py_error + string" where
  "lower_or_empty x =
     (if truthy x then (case x of JStr s \<Rightarrow> Inr (lower s) | _ \<Rightarrow> Inl AttributeError)
      else Inr (lower []))"

text \<open>The string \<open>s\<close> that \<^verbatim>\<open>is_router\<close> and \<^verbatim>\<open>detect_free\<close> both build.\<close>

definition id_name_lower :: "json \<Rightarrow> json \<Rightarrow> py_error + string" where
  "id_name_lower mid name =
     and_then (lower_or_empty mid) (\<lambda>a.
     and_then (lower_or_empty name) (\<lambda>b.
       Inr (a @ '' '' @ b)))"

definition is_router :: "json \<Rightarrow> json \<Rightarrow> py_error + bool" where
  "is_router mid name =
     and_then (id_name_lower mid name) (\<lambda>s.
       Inr (startswith s ''openrouter/auto'' \<or> str_contains '' router'' s \<or> endswith s ''/auto''))"

definition detect_free :: "json \<Rightarrow> json \<Rightarrow> real \<Rightarrow> real \<Rightarrow> py_error + bool" where
  "detect_free mid name p_in p_out =
     and_then (id_name_lower mid name) (\<lambda>s.
       Inr (str_contains '':free'' s \<or> (p_in = 0 \<and> p_out = 0)))"

text \<open>\<^verbatim>\<open>family\<close>: \<^verbatim>\<open>(mid or "").split("/", 1)[0]\<close>, the text before the first slash.\<close>

definition family :: "json \<Rightarrow> py_error + string" where
  "family mid =
     (if truthy mid
      then (case mid of
              JStr s \<Rightarrow> Inr (takeWhile (\<lambda>c. c \<noteq> CHR ''/'') s)
            | _ \<Rightarrow> Inl AttributeError)
      else Inr [])"

subsection \<open>The normalizer\<close>

record row =
  row_id :: json
  row_name :: json
  row_family :: string
  row_context :: int
  row_price_in :: real
  row_price_out :: real
  row_score :: pyfloat
  row_free :: bool
  row_streaming :: string

definition price_of :: "builtins \<Rightarrow> json \<Rightarrow> string \<Rightarrow> py_error + real option" where
  \<comment> \<open>\<^verbatim>\<open>ffloat(m.get("pricing", {}).get(key))\<close>\<close>
  "price_of B m key =
     and_then (py_get m ''pricing'' (JObj [])) (\<lambda>pricing.
     and_then (py_get pricing key JNull) (\<lambda>x.
       Inr (ffloat B x)))"

text \<open>
  One pass of the body of \<^verbatim>\<open>for m in models\<close>: \<open>Inr None\<close> is \<^verbatim>\<open>continue\<close>, \<open>Inr (Some r)\<close>
  is the row appended. \<open>None\<close> for a price is Python's None.
\<close>

definition model_row :: "builtins \<Rightarrow> json \<Rightarrow> py_error + row option" where
  "model_row B m =
     and_then (py_get m ''id'' JNull) (\<lambda>mid.
     and_then (py_get m ''name'' JNull) (\<lambda>name.
     and_then (is_router mid name) (\<lambda>router.
       if router then Inr None
       else
     and_then (ctx_of B m) (\<lambda>ctx.
     and_then (price_of B m ''prompt'') (\<lambda>prompt.
     and_then (price_of B m ''completion'') (\<lambda>completion.
       case (prompt, completion) of
         (Some p_in, Some p_out) \<Rightarrow>
           if p_in < 0 \<or> p_out < 0 \<or> ctx \<le> 0 then Inr None
           else
             and_then (family mid) (\<lambda>fam.
             and_then (detect_free mid name p_in p_out) (\<lambda>fr.
               Inr (Some \<lparr>row_id = mid, row_name = name, row_family = fam,
                          row_context = ctx, row_price_in = p_in, row_price_out = p_out,
                          row_score = round_float (score p_in p_out ctx) 12,
                          row_free = fr, row_streaming = ''SSE (stream=true)''\<rparr>)))
       | _ \<Rightarrow> Inr None))))))"

fun rows_loop :: "builtins \<Rightarrow> json list \<Rightarrow> row list \<Rightarrow> py_error + row list" where
  "rows_loop B [] rows = Inr rows"
| "rows_loop B (m # ms) rows =
     (case model_row B m of
        Inl e \<Rightarrow> Inl e
      | Inr None \<Rightarrow> rows_loop B ms rows
      | Inr (Some r) \<Rightarrow> rows_loop B ms (rows @ [r]))"

definition normalize :: "builtins \<Rightarrow> json list \<Rightarrow> py_error + row list" where
  "normalize B models = rows_loop B models []"

subsection \<open>The ranker\<close>

text \<open>
  \<^verbatim>\<open>df.sort_values([...], ascending=[...])\<close> on several columns is a stable
  lexicographic sort; a descending integer column is an ascending sort on its negation
  (ties keep their order either way). \<open>sort_key\<close> is a stable insertion sort. The
  columns sorted on never hold a missing value: \<open>family\<close> is always a string, and the
  numeric columns come from rows that passed the normalizer's checks.
\<close>

definition top10 :: "row list \<Rightarrow> row list" where
  "top10 df =
     take 10 (sort_key (\<lambda>r. (row_score r, row_price_in r, row_price_out r, - row_context r)) df)"

definition free5 :: "row list \<Rightarrow> row list" where
  "free5 df =
     take 5 (sort_key (\<lambda>r. (- row_context r, row_price_in r, row_price_out r))
               (filter row_free df))"

text \<open>
  \<^verbatim>\<open>groupby("family", as_index=False).first()\<close>. The groups come out in ascending key
  order, each keeping the frame's row order. pandas' \<^verbatim>\<open>first\<close> works column by column: it
  takes the first value of the column in the group that is not missing (None), so a row
  it returns can combine values of several rows of the group. Of the columns of \<open>row\<close>,
  only \<open>id\<close> and \<open>name\<close> can hold None.
\<close>

definition first_notna :: "json list \<Rightarrow> json" where
  "first_notna vs = (case filter (\<lambda>v. v \<noteq> JNull) vs of [] \<Rightarrow> JNull | v # _ \<Rightarrow> v)"

fun group_first :: "row list \<Rightarrow> row list" where
  "group_first [] = []"
| "group_first (r # rs) =
     [r\<lparr>row_id := first_notna (map row_id (r # rs)),
        row_name := first_notna (map row_name (r # rs))\<rparr>]"

definition groupby_family_first :: "row list \<Rightarrow> row list" where
  "groupby_family_first df =
     concat (map (\<lambda>k. group_first (filter (\<lambda>r. row_family r = k) df))
                 (sort (remdups (map row_family df))))"

text \<open>
  The last \<^verbatim>\<open>sort_values("score")\<close> is on one column, for which pandas' default sort
  does not promise the order of equal scores; this model keeps their order.
\<close>

definition best_per_family :: "row list \<Rightarrow> row list" where
  "best_per_family df =
     sort_key row_score
       (groupby_family_first
          (sort_key (\<lambda>r. (row_family r, row_score r, row_price_in r, row_price_out r,
                           - row_context r)) df))"

text \<open>
  The order the specification gives within a family: score, then input price, then
  output price ascending, then context descending.
\<close>

definition rank_key :: "row \<Rightarrow> pyfloat \<times> real \<times> real \<times> int" where
  "rank_key r = (row_score r, row_price_in r, row_price_out r, - row_context r)"

text \<open>The friendly formatting of the three views: both prices to 10 decimals.\<close>

definition format_view :: "row list \<Rightarrow> row list" where
  "format_view d =
     map (\<lambda>r. r\<lparr>row_price_in := py_round (row_price_in r) 10,
                 row_price_out := py_round (row_price_out r) 10\<rparr>) d"

text \<open>
  The three views as first computed (lines 64 to 77). A frame built from no rows has no
  columns, and the first \<^verbatim>\<open>sort_values\<close> raises KeyError.
\<close>

definition ranked :: "row list \<Rightarrow> py_error + (row list \<times> row list \<times> row list)" where
  "ranked df = (if df = [] then Inl KeyError else Inr (top10 df, free5 df, best_per_family df))"

text \<open>\<^verbatim>\<open>for m in models\<close>: what iterating a parsed JSON value yields.\<close>

fun py_iter :: "json \<Rightarrow> py_error + json list" where
  "py_iter (JArr xs) = Inr xs"
| "py_iter (JObj kvs) = Inr (map (\<lambda>kv. JStr (fst kv)) kvs)"
| "py_iter (JStr s) = Inr (map (\<lambda>c. JStr [c]) s)"
| "py_iter _ = Inl TypeError"

text \<open>
  The script from the parsed response body to the three sheets it writes: \<open>data\<close>
  defaults to the empty list.
\<close>

definition export_views :: "builtins \<Rightarrow> json \<Rightarrow> py_error + (row list \<times> row list \<times> row list)" where
  "export_views B body =
     and_then (py_get body ''data'' (JArr [])) (\<lambda>data.
     and_then (py_iter data) (\<lambda>models.
     and_then (normalize B models) (\<lambda>df.
     and_then (ranked df) (\<lambda>(t, f, b).
       Inr (format_view t, format_view f, format_view b)))))"

section \<open>Pipeline A: npm-scan.py\<close>

subsection \<open>Arguments\<close>

text \<open>
  \<^verbatim>\<open>for arg in sys.argv[1:]\<close>: the state is \<open>(lockfile_path, output_json)\<close>.
\<close>

fun parse_args :: "string list \<Rightarrow> string \<times> bool \<Rightarrow> string \<times> bool" where
  "parse_args [] st = st"
| "parse_args (arg # args) (lockfile_path, output_json) =
     (if arg = ''--json'' then parse_args args (lockfile_path, True)
      else parse_args args (arg, output_json))"

subsection \<open>Scraping and deduplication\<close>

record ioc =
  package :: string
  version :: string

text \<open>
  What one pass of the \<^verbatim>\<open>try\<close> block does for one URL depends on library code only
  (\<^verbatim>\<open>requests\<close>, \<^verbatim>\<open>BeautifulSoup\<close>, \<^verbatim>\<open>re\<close>), so its outcome is an input of the model:
  either some call raised and nothing was appended, or the page was read and
  \<^verbatim>\<open>pattern.findall(text)\<close> returned the given (name, version) pairs.
\<close>

datatype fetch = Fetch_failed | Page "(string \<times> string) list"

fun scrape :: "fetch list \<Rightarrow> ioc list \<times> bool \<Rightarrow> ioc list \<times> bool" where
  "scrape [] st = st"
| "scrape (Fetch_failed # urls) (iocs, fetched_online) = scrape urls (iocs, fetched_online)"
| "scrape (Page matches # urls) (iocs, fetched_online) =
     scrape urls
       (iocs @ map (\<lambda>(name, ver). \<lparr>package = name, version = ver\<rparr>) matches, True)"

text \<open>
  \<^verbatim>\<open>d[k] = v\<close> on a Python dict: a key already present keeps its place and takes the
  new value; a new key goes last.
\<close>

fun dict_set :: "('k \<times> 'v) list \<Rightarrow> 'k \<Rightarrow> 'v \<Rightarrow> ('k \<times> 'v) list" where
  "dict_set [] k v = [(k, v)]"
| "dict_set ((k', v') # d) k v =
     (if k' = k then (k, v) # d else (k', v') # dict_set d k v)"

definition ioc_key :: "ioc \<Rightarrow> string" where
  "ioc_key i = package i @ ''@'' @ version i"

definition unique_iocs :: "ioc list \<Rightarrow> (string \<times> ioc) list" where
  "unique_iocs iocs = foldl (\<lambda>d i. dict_set d (ioc_key i) i) [] iocs"

definition iocs_list_of :: "ioc list \<Rightarrow> ioc list" where
  "iocs_list_of iocs = map snd (unique_iocs iocs)"

subsection \<open>The two walks\<close>

text \<open>
  The inner loop \<^verbatim>\<open>for ioc in iocs_list: if ...: found.append(ioc)\<close>: the IOCs appended
  for one entry, in the list's order. A version that is not a string equals no IOC's.
\<close>

definition match_iocs :: "ioc list \<Rightarrow> string \<Rightarrow> json \<Rightarrow> ioc list" where
  "match_iocs iocs_list name ver =
     filter (\<lambda>i. package i = name \<and> JStr (version i) = ver) iocs_list"

text \<open>
  Lines 60 to 64 and 72 to 76, the same in both walks: with \<open>ver\<close> the entry's
  \<^verbatim>\<open>info.get("version")\<close>, a truthy version is compared with every IOC.
\<close>

definition check_entry :: "ioc list \<Rightarrow> string \<Rightarrow> json \<Rightarrow> ioc list \<Rightarrow> ioc list" where
  "check_entry iocs_list name ver found =
     (if truthy ver then found @ match_iocs iocs_list name ver else found)"

definition dict_get :: "(string \<times> json) list \<Rightarrow> string \<Rightarrow> json" where
  \<comment> \<open>\<^verbatim>\<open>d.get(key)\<close> on a dict\<close>
  "dict_get members k = (case map_of members k of None \<Rightarrow> JNull | Some v \<Rightarrow> v)"

text \<open>
  \<^verbatim>\<open>extract_from_v1\<close>. The global list \<open>found\<close> is passed in and returned. \<open>v1_loop\<close> is the
  \<^verbatim>\<open>for name, info in deps.items()\<close> loop. \<^verbatim>\<open>deps.items()\<close> and \<^verbatim>\<open>info.get\<close> raise
  AttributeError on anything but a dict. The interpreter's recursion limit is not
  modelled.
\<close>

function (sequential)
  extract_from_v1 :: "ioc list \<Rightarrow> json \<Rightarrow> ioc list \<Rightarrow> py_error + ioc list" and
  v1_loop :: "ioc list \<Rightarrow> (string \<times> json) list \<Rightarrow> ioc list \<Rightarrow> py_error + ioc list"
where
  "extract_from_v1 iocs_list (JObj deps) found = v1_loop iocs_list deps found"
| "extract_from_v1 iocs_list _ found = Inl AttributeError"
| "v1_loop iocs_list [] found = Inr found"
| "v1_loop iocs_list ((name, info) # rest) found =
     (case info of
        JObj members \<Rightarrow>
          (case map_of members ''dependencies'' of
             None \<Rightarrow>
               v1_loop iocs_list rest
                 (check_entry iocs_list name (dict_get members ''version'') found)
           | Some d \<Rightarrow>
               (case extract_from_v1 iocs_list d
                       (check_entry iocs_list name (dict_get members ''version'') found) of
                  Inl e \<Rightarrow> Inl e
                | Inr found2 \<Rightarrow> v1_loop iocs_list rest found2))
      | _ \<Rightarrow> Inl AttributeError)"
  by pat_completeness auto

termination
proof -
  have sz: "size v < Suc (size_list (size_prod (\<lambda>_. 0) size) kvs)"
    if "map_of kvs k = Some v" for kvs :: "(string \<times> json) list" and k v
    using that by (induction kvs) (auto split: if_splits)
  show ?thesis
    apply (relation "measure (\<lambda>x. case x of
              Inl (L, j, f) \<Rightarrow> 2 * size j
            | Inr (L, kvs, f) \<Rightarrow> 2 * size_list (size_prod (\<lambda>_. 0) size) kvs + 1)")
       apply simp
      apply simp
     apply (auto dest!: sz)
    done
qed

text \<open>
  \<^verbatim>\<open>extract_from_v2\<close>: \<^verbatim>\<open>path.split("/")[1]\<close> is the segment after the first slash.
\<close>

fun v2_loop :: "ioc list \<Rightarrow> (string \<times> json) list \<Rightarrow> ioc list \<Rightarrow> py_error + ioc list" where
  "v2_loop iocs_list [] found = Inr found"
| "v2_loop iocs_list ((path, info) # rest) found =
     (if startswith path ''node_modules/'' then
        and_then (py_index (split_on CHR ''/'' path) 1) (\<lambda>name.
        and_then (py_get info ''version'' JNull) (\<lambda>ver.
          v2_loop iocs_list rest (check_entry iocs_list name ver found)))
      else v2_loop iocs_list rest found)"

fun extract_from_v2 :: "ioc list \<Rightarrow> json \<Rightarrow> ioc list \<Rightarrow> py_error + ioc list" where
  "extract_from_v2 iocs_list (JObj packages_dict) found = v2_loop iocs_list packages_dict found"
| "extract_from_v2 iocs_list _ found = Inl AttributeError"

subsection \<open>Schema dispatch\<close>

text \<open>
  \<^verbatim>\<open>key in x\<close> and \<^verbatim>\<open>x[key]\<close> for a string key, on whatever \<^verbatim>\<open>json.load\<close> returned: key
  membership on a dict, element membership on a list, substring on a string, TypeError
  otherwise; subscripting anything but a dict with a string raises TypeError.
\<close>

fun py_in :: "string \<Rightarrow> json \<Rightarrow> py_error + bool" where
  "py_in k (JObj kvs) = Inr (k \<in> set (map fst kvs))"
| "py_in k (JArr xs) = Inr (JStr k \<in> set xs)"
| "py_in k (JStr s) = Inr (str_contains k s)"
| "py_in k _ = Inl TypeError"

fun py_subscript :: "json \<Rightarrow> string \<Rightarrow> py_error + json" where
  "py_subscript (JObj kvs) k = (case map_of kvs k of None \<Rightarrow> Inl KeyError | Some v \<Rightarrow> Inr v)"
| "py_subscript _ k = Inl TypeError"

definition scan :: "ioc list \<Rightarrow> json \<Rightarrow> py_error + ioc list" where
  "scan iocs_list lock_data =
     and_then (py_in ''packages'' lock_data) (\<lambda>has_packages.
       if has_packages then
         and_then (py_subscript lock_data ''packages'') (\<lambda>packages_dict.
           extract_from_v2 iocs_list packages_dict [])
       else
         and_then (py_in ''dependencies'' lock_data) (\<lambda>has_dependencies.
           if has_dependencies then
             and_then (py_subscript lock_data ''dependencies'') (\<lambda>deps.
               extract_from_v1 iocs_list deps [])
           else Inr []))"

subsection \<open>The script\<close>

text \<open>
  The world the script runs in: its arguments (\<^verbatim>\<open>sys.argv\<close>, the script name first), the
  outcome of each URL's fetch, and the file system as the script sees it: \<open>None\<close> where
  \<^verbatim>\<open>os.path.isfile\<close> is false, otherwise what \<^verbatim>\<open>open\<close> and \<^verbatim>\<open>json.load\<close> give, an exception
  or the parsed document.
\<close>

record world =
  argv :: "string list"
  fetches :: "fetch list"
  files :: "string \<Rightarrow> (py_error + json) option"

text \<open>
  The fields of the report that the script computes itself. \<open>scanned_lockfile\<close> is the
  path as given; resolving it (\<^verbatim>\<open>os.path.realpath\<close>) and the timestamp are library calls
  and are left out, as is the fixed remediation text.
\<close>

record report =
  scanned_lockfile :: string
  status :: string
  fetched_from_internet :: bool
  findings :: "ioc list"
  iocs_source :: "ioc list"

text \<open>
  How a run ends: \<^verbatim>\<open>sys.exit(code)\<close> after a printed message, an uncaught exception, or the
  end of the script with the report printed (as JSON when the flag is set).
\<close>

datatype run =
    Exited nat string
  | Uncaught py_error
  | Completed bool report

definition not_found_message :: "string \<Rightarrow> string" where
  \<comment> \<open>\<^verbatim>\<open>f"Arquivo '{lockfile_path}' n..o encontrado."\<close>, the a-tilde as its two UTF-8 bytes\<close>
  "not_found_message lockfile_path =
     ''Arquivo '' @ [CHR 0x27] @ lockfile_path @ [CHR 0x27] @ '' n'' @ [CHR 0xC3, CHR 0xA3]
       @ ''o encontrado.''"

definition npm_scan :: "world \<Rightarrow> run" where
  "npm_scan w =
     (let (lockfile_path, output_json) = parse_args (drop 1 (argv w)) (''./package-lock.json'', False);
          (iocs, fetched_online) = scrape (fetches w) ([], False);
          iocs_list = iocs_list_of iocs
      in case files w lockfile_path of
           None \<Rightarrow> Exited 2 (not_found_message lockfile_path)
         | Some (Inl e) \<Rightarrow> Uncaught e
         | Some (Inr lock_data) \<Rightarrow>
             (case scan iocs_list lock_data of
                Inl e \<Rightarrow> Uncaught e
              | Inr found \<Rightarrow>
                  Completed output_json
                    \<lparr>scanned_lockfile = lockfile_path,
                     status = (if found = [] then ''clean'' else ''compromised''),
                     fetched_from_internet = fetched_online,
                     findings = found,
                     iocs_source = iocs_list\<rparr>))"

text \<open>
  The process exit status: the argument of \<^verbatim>\<open>sys.exit\<close>, 1 for an uncaught exception, 0
  at the end of the script.
\<close>

fun exit_status :: "run \<Rightarrow> nat" where
  "exit_status (Exited code msg) = code"
| "exit_status (Uncaught e) = 1"
| "exit_status (Completed output_json r) = 0"

subsection \<open>Well-shaped lockfiles and their entries\<close>

text \<open>
  A schema-v1 dependency map as npm writes it: every entry is an object, and so is every
  entry of every nested \<open>dependencies\<close> member.
\<close>

inductive v1_shaped :: "json \<Rightarrow> bool" where
  v1_shapedI:
    "(\<And>name info. (name, info) \<in> set deps \<Longrightarrow>
        \<exists>members. info = JObj members \<and>
          (\<forall>d. map_of members ''dependencies'' = Some d \<longrightarrow> v1_shaped d))
     \<Longrightarrow> v1_shaped (JObj deps)"

text \<open>
  \<open>v1_entry deps name info\<close>: the entry \<open>name: info\<close> occurs in \<open>deps\<close> at some nesting
  depth, reached through the \<open>dependencies\<close> members of its ancestors.
\<close>

inductive v1_entry :: "json \<Rightarrow> string \<Rightarrow> json \<Rightarrow> bool" where
  v1_entry_here:
    "(name, info) \<in> set deps \<Longrightarrow> v1_entry (JObj deps) name info"
| v1_entry_nested:
    "(parent, JObj members) \<in> set deps \<Longrightarrow> map_of members ''dependencies'' = Some d \<Longrightarrow>
     v1_entry d name info \<Longrightarrow> v1_entry (JObj deps) name info"

text \<open>A schema-v2 package map: every entry under \<open>node_modules/\<close> is an object.\<close>

definition v2_shaped :: "json \<Rightarrow> bool" where
  "v2_shaped p =
     (case p of
        JObj packages_dict \<Rightarrow>
          list_all (\<lambda>(path, info). startswith path ''node_modules/'' \<longrightarrow>
                      (case info of JObj members \<Rightarrow> True | _ \<Rightarrow> False)) packages_dict
      | _ \<Rightarrow> False)"

text \<open>
  A lockfile document: an object whose \<open>packages\<close> member, or failing that whose
  \<open>dependencies\<close> member, is well shaped. An object with neither member is one too.
\<close>

definition lockfile_shaped :: "json \<Rightarrow> bool" where
  "lockfile_shaped lock_data =
     (case lock_data of
        JObj members \<Rightarrow>
          (case map_of members ''packages'' of
             Some p \<Rightarrow> v2_shaped p
           | None \<Rightarrow>
               (case map_of members ''dependencies'' of
                  Some d \<Rightarrow> v1_shaped d
                | None \<Rightarrow> True))
      | _ \<Rightarrow> False)"

text \<open>
  \<open>entry_matches iocs_list name info i\<close>: the entry \<open>name: info\<close> carries the package
  name and the (non-empty) version string of the IOC \<open>i\<close> of the list.
\<close>

definition entry_matches :: "ioc list \<Rightarrow> string \<Rightarrow> json \<Rightarrow> ioc \<Rightarrow> bool" where
  "entry_matches iocs_list name info i \<longleftrightarrow>
     (case info of
        JObj members \<Rightarrow> dict_get members ''version'' = JStr (version i)
      | _ \<Rightarrow> False)
     \<and> version i \<noteq> [] \<and> package i = name \<and> i \<in> set iocs_list"

subsection \<open>Example runs\<close>

text \<open>
  Worlds for the examples: the script is started on the default path, which holds the
  given document; every other path is no file.
\<close>

definition default_files :: "json \<Rightarrow> string \<Rightarrow> (py_error + json) option" where
  "default_files lock_data path =
     (if path = ''./package-lock.json'' then Some (Inr lock_data) else None)"

definition chalk_ioc :: ioc where
  "chalk_ioc = \<lparr>package = ''chalk'', version = ''5.6.1''\<rparr>"

definition debug_ioc :: ioc where
  "debug_ioc = \<lparr>package = ''debug'', version = ''4.4.2''\<rparr>"

text \<open>The advisory page names chalk 5.6.1 twice and debug 4.4.2 once.\<close>

definition advisory :: fetch where
  "advisory = Page [(''chalk'', ''5.6.1''), (''debug'', ''4.4.2''), (''chalk'', ''5.6.1'')]"

text \<open>\<^verbatim>\<open>{"packages": {"node_modules/chalk": {"version": "5.6.1"}}}\<close>\<close>

definition chalk_lock_v2 :: json where
  "chalk_lock_v2 =
     JObj [(''packages'', JObj [(''node_modules/chalk'', JObj [(''version'', JStr ''5.6.1'')])])]"

text \<open>
  A schema-v1 tree three levels deep in which only the deepest entry, chalk 5.6.1 under
  \<open>app > ui\<close>, is compromised.
\<close>

definition deep_deps :: json where
  "deep_deps =
     JObj [(''app'', JObj [(''version'', JStr ''1.0.0''),
                          (''dependencies'',
                             JObj [(''ui'', JObj [(''version'', JStr ''2.0.0''),
                                                 (''dependencies'',
                                                    JObj [(''chalk'', JObj [(''version'', JStr ''5.6.1'')])])])])])]"

definition deep_lock_v1 :: json where
  "deep_lock_v1 = JObj [(''lockfileVersion'', JInt 1), (''dependencies'', deep_deps)]"

definition chalk_world :: world where
  "chalk_world =
     \<lparr>argv = [''npm-scan.py''], fetches = [advisory], files = default_files chalk_lock_v2\<rparr>"

definition deep_world :: world where
  "deep_world =
     \<lparr>argv = [''npm-scan.py'', ''--json''], fetches = [advisory],
      files = default_files deep_lock_v1\<rparr>"

definition offline_world :: world where
  "offline_world =
     \<lparr>argv = [''npm-scan.py''], fetches = [Fetch_failed], files = default_files chalk_lock_v2\<rparr>"

definition missing_world :: world where
  "missing_world =
     \<lparr>argv = [''npm-scan.py'', ''nowhere.json''], fetches = [advisory],
      files = default_files chalk_lock_v2\<rparr>"

subsection \<open>Records the normalizer cannot rank\<close>

text \<open>
  \<open>unrankable B m\<close>: the record's effective context length (\<open>ctx_of\<close>) is zero or less,
  or its prompt or completion price is absent (\<open>ffloat\<close> gives None) or negative.
\<close>

definition unrankable :: "builtins \<Rightarrow> json \<Rightarrow> bool" where
  "unrankable B m \<longleftrightarrow>
     (case ctx_of B m of Inr ctx \<Rightarrow> ctx \<le> 0 | Inl e \<Rightarrow> False)
     \<or> (case price_of B m ''prompt'' of
           Inr None \<Rightarrow> True | Inr (Some p) \<Rightarrow> p < 0 | Inl e \<Rightarrow> False)
     \<or> (case price_of B m ''completion'' of
           Inr None \<Rightarrow> True | Inr (Some p) \<Rightarrow> p < 0 | Inl e \<Rightarrow> False)"

subsection \<open>Example records\<close>

text \<open>
  Model records as the API lists them, prices as decimal strings, and the rows the
  normalizer makes of them. \<open>acme_a\<close> has a null name; \<open>zero_ctx\<close> has context length 0.
\<close>

definition priced_model :: "string \<Rightarrow> json \<Rightarrow> int \<Rightarrow> string \<Rightarrow> json" where
  "priced_model mid name ctx price =
     JObj [(''id'', JStr mid), (''name'', name), (''context_length'', JInt ctx),
           (''pricing'', JObj [(''prompt'', JStr price), (''completion'', JStr price)])]"

definition priced_row :: "string \<Rightarrow> json \<Rightarrow> string \<Rightarrow> int \<Rightarrow> real \<Rightarrow> real \<Rightarrow> row" where
  "priced_row mid name fam ctx price sc =
     \<lparr>row_id = JStr mid, row_name = name, row_family = fam, row_context = ctx,
      row_price_in = price, row_price_out = price, row_score = Num sc, row_free = False,
      row_streaming = ''SSE (stream=true)''\<rparr>"

definition acme_a :: json where
  "acme_a = priced_model ''acme/a'' JNull 8000 ''0.000001''"

definition acme_b :: json where
  "acme_b = priced_model ''acme/b'' (JStr ''B'') 8000 ''0.000002''"

definition other_c :: json where
  "other_c = priced_model ''other/c'' (JStr ''C'') 8000 ''0.000003''"

definition zero_ctx :: json where
  "zero_ctx = priced_model ''acme/z'' (JStr ''Z'') 0 ''0.000001''"

definition row_a :: row where
  "row_a = priced_row ''acme/a'' JNull ''acme'' 8000 (1 / 1000000) (1 / 1000000)"

definition row_b :: row where
  "row_b = priced_row ''acme/b'' (JStr ''B'') ''acme'' 8000 (2 / 1000000) (2 / 1000000)"

definition row_c :: row where
  "row_c = priced_row ''other/c'' (JStr ''C'') ''other'' 8000 (3 / 1000000) (3 / 1000000)"

subsection \<open>The router test as the specification words it\<close>

text \<open>
  The specification's wording of the router test, for comparison with \<open>is_router\<close>:
  the string starts with the router prefix, or one of its space-separated tokens is
  exactly \<open>router\<close>, or it ends with \<open>/auto\<close>.
\<close>

definition spec_tokens :: "string \<Rightarrow> string list" where
  "spec_tokens s = filter (\<lambda>w. w \<noteq> []) (split_on CHR '' '' s)"

definition spec_is_router :: "string \<Rightarrow> bool" where
  "spec_is_router s =
     (prefix ''openrouter/auto'' s \<or> ''router'' \<in> set (spec_tokens s) \<or> suffix ''/auto'' s)"

subsection \<open>A parser for plain decimal literals\<close>

text \<open>
  The examples below need some instance of the two parsers. \<open>decimal_builtins\<close> reads
  unsigned literals \<open>digits\<close> and \<open>digits.digits\<close>, on which it agrees with Python's
  \<^verbatim>\<open>float\<close> and \<^verbatim>\<open>int\<close> (in exact arithmetic); it rejects every other string.
\<close>

definition digit_of :: "char \<Rightarrow> nat option" where
  "digit_of c = map_of (zip ''0123456789'' [0, 1, 2, 3, 4, 5, 6, 7, 8, 9]) c"

fun digits_val :: "nat \<Rightarrow> string \<Rightarrow> nat option" where
  "digits_val acc [] = Some acc"
| "digits_val acc (c # cs) =
     (case digit_of c of None \<Rightarrow> None | Some d \<Rightarrow> digits_val (10 * acc + d) cs)"

definition decimal_nat :: "string \<Rightarrow> nat option" where
  "decimal_nat s = (if s = [] then None else digits_val 0 s)"

definition decimal_float :: "string \<Rightarrow> real option" where
  "decimal_float s =
     (case split_on CHR ''.'' s of
        [a] \<Rightarrow> map_option real (decimal_nat a)
      | [a, b] \<Rightarrow>
          (case (decimal_nat a, decimal_nat b) of
             (Some x, Some y) \<Rightarrow> Some (real x + real y / 10 ^ length b)
           | _ \<Rightarrow> None)
      | _ \<Rightarrow> None)"

definition decimal_builtins :: builtins where
  "decimal_builtins =
     \<lparr>float_of_str = decimal_float, int_of_str = (\<lambda>s. map_option int (decimal_nat s))\<rparr>"

section \<open>Properties of the score\<close>

lemma score_pos:
  assumes "0 < ctx"
  shows "score p_in p_out ctx =
           Num ((W_IN * p_in + W_OUT * p_out) / (real_of_int (min ctx CTX_CAP) / real_of_int BASE_CTX))"
proof -
  have "0 < min ctx CTX_CAP"
    using assms by (simp add: CTX_CAP_def)
  then have "0 < real_of_int (min ctx CTX_CAP) / real_of_int BASE_CTX"
    by (simp add: BASE_CTX_def)
  then show ?thesis
    using assms by (simp add: score_def Let_def)
qed

text \<open>
  C5. For a context length above zero the score is
  \<open>(0.5 * price_in + 0.5 * price_out) / (min ctx 524288 / 8000)\<close>; for a context length
  of zero or less it is \<^verbatim>\<open>math.inf\<close>.
\<close>

theorem score_formula:
  "(0 < ctx \<longrightarrow>
      score p_in p_out ctx =
        Num ((0.5 * p_in + 0.5 * p_out) / (real_of_int (min ctx 524288) / 8000)))
   \<and> (ctx \<le> 0 \<longrightarrow> score p_in p_out ctx = Math_inf)"
proof (intro conjI impI)
  assume "0 < ctx"
  then show "score p_in p_out ctx =
      Num ((0.5 * p_in + 0.5 * p_out) / (real_of_int (min ctx 524288) / 8000))"
    by (simp add: score_pos W_IN_def W_OUT_def CTX_CAP_def BASE_CTX_def)
next
  assume "ctx \<le> 0"
  then show "score p_in p_out ctx = Math_inf"
    by (simp add: score_def)
qed

theorem score_formula_witness:
  "score 2 4 16000 = Num (3 / 2) \<and> score 2 4 0 = Math_inf"
  using score_formula [of 16000 2 4] score_formula [of 0 2 4]
  by simp






section \<open>The router test\<close>

lemma startswith_prefix: "startswith s p \<longleftrightarrow> prefix p s"
  unfolding startswith_def
  by (metis append_eq_conv_conj prefix_def take_is_prefix)

lemma endswith_suffix: "endswith s p \<longleftrightarrow> suffix p s"
proof
  assume "endswith s p"
  then have "s = take (length s - length p) s @ p"
    unfolding endswith_def by (metis append_take_drop_id)
  then show "suffix p s"
    unfolding suffix_def by blast
next
  assume "suffix p s"
  then obtain zs where "s = zs @ p"
    unfolding suffix_def by blast
  then show "endswith s p"
    by (simp add: endswith_def)
qed

lemma str_contains_sublist: "str_contains sub s \<longleftrightarrow> sublist sub s"
  by (induction s) (auto simp: startswith_prefix sublist_Cons_right)

lemma and_then_Inr_iff:
  "and_then x f = Inr y \<longleftrightarrow> (\<exists>a. x = Inr a \<and> f a = Inr y)"
  by (cases x) (simp_all add: and_then_def)

lemma and_then_Inr [simp]: "and_then (Inr a) f = f a"
  by (simp add: and_then_def)

lemma and_then_Inl [simp]: "and_then (Inl e) f = Inl e"
  by (simp add: and_then_def)

lemma is_router_sublist:
  assumes "id_name_lower mid name = Inr s"
  shows "is_router mid name =
           Inr (prefix ''openrouter/auto'' s \<or> sublist '' router'' s \<or> suffix ''/auto'' s)"
  using assms
  by (simp add: is_router_def startswith_prefix endswith_suffix str_contains_sublist)

lemma model_row_router:
  assumes "py_get m ''id'' JNull = Inr mid"
    and "py_get m ''name'' JNull = Inr name"
    and "is_router mid name = Inr True"
  shows "model_row B m = Inr None"
  using assms by (simp add: model_row_def)

text \<open>
  C6, as the claim states it, fails in both directions. An id that is the bare word
  \<open>router\<close> gives a string whose first token is \<open>router\<close>, yet no space precedes it and
  the record is kept; a name \<open>RouterLM 7B\<close> holds no token \<open>router\<close>, yet the text
  \<open>router\<close> follows a space and the record is excluded.
\<close>

theorem is_router_token_counterexample:
  "id_name_lower (JStr ''router'') (JStr ''R1'') = Inr ''router r1''
   \<and> spec_is_router ''router r1''
   \<and> is_router (JStr ''router'') (JStr ''R1'') = Inr False
   \<and> id_name_lower (JStr ''acme/lm'') (JStr ''RouterLM 7B'') = Inr ''acme/lm routerlm 7b''
   \<and> \<not> spec_is_router ''acme/lm routerlm 7b''
   \<and> is_router (JStr ''acme/lm'') (JStr ''RouterLM 7B'') = Inr True"
  by code_simp

text \<open>
  C6, amended. Let \<open>s\<close> be the lowercased id, one space, and the lowercased name (a
  missing id or name counting as empty). The record is excluded as a router exactly when
  \<open>s\<close> starts with \<open>openrouter/auto\<close>, or contains the text \<open>router\<close> straight after a
  space (whatever follows it), or ends with \<open>/auto\<close>; and a record for which the test
  holds yields no row.
\<close>

theorem is_router_exactly:
  assumes "py_get m ''id'' JNull = Inr mid"
    and "py_get m ''name'' JNull = Inr name"
    and "lower_or_empty mid = Inr a"
    and "lower_or_empty name = Inr b"
  shows "is_router mid name =
           Inr (prefix ''openrouter/auto'' (a @ '' '' @ b)
                \<or> sublist '' router'' (a @ '' '' @ b)
                \<or> suffix ''/auto'' (a @ '' '' @ b))
         \<and> (is_router mid name = Inr True \<longrightarrow> model_row B m = Inr None)"
proof -
  have "id_name_lower mid name = Inr (a @ '' '' @ b)"
    using assms(3,4) by (simp add: id_name_lower_def)
  then have "is_router mid name =
      Inr (prefix ''openrouter/auto'' (a @ '' '' @ b)
           \<or> sublist '' router'' (a @ '' '' @ b)
           \<or> suffix ''/auto'' (a @ '' '' @ b))"
    by (rule is_router_sublist)
  moreover have "is_router mid name = Inr True \<longrightarrow> model_row B m = Inr None"
    using assms(1,2) by (simp add: model_row_router)
  ultimately show ?thesis by blast
qed

theorem is_router_exactly_witness:
  "is_router (JStr ''acme/switch'') (JStr ''Acme Router'') = Inr True
   \<and> model_row decimal_builtins
        (JObj [(''id'', JStr ''acme/switch''), (''name'', JStr ''Acme Router'')]) = Inr None"
proof -
  let ?m = "JObj [(''id'', JStr ''acme/switch''), (''name'', JStr ''Acme Router'')]"
  have 1: "py_get ?m ''id'' JNull = Inr (JStr ''acme/switch'')"
    by simp
  have 2: "py_get ?m ''name'' JNull = Inr (JStr ''Acme Router'')"
    by simp
  have 3: "lower_or_empty (JStr ''acme/switch'') = Inr ''acme/switch''"
    by code_simp
  have 4: "lower_or_empty (JStr ''Acme Router'') = Inr ''acme router''"
    by code_simp
  have 5: "sublist '' router'' (''acme/switch'' @ '' '' @ ''acme router'')"
    unfolding sublist_def by (rule exI [of _ "''acme/switch acme''"]) simp
  show ?thesis
    using is_router_exactly [OF 1 2 3 4, of decimal_builtins] 5 by simp
qed

section \<open>The lockfile walks\<close>

lemma match_iocs_subset: "set (match_iocs L name ver) \<subseteq> set L"
  by (auto simp: match_iocs_def)

lemma check_entry_appends:
  "\<exists>extra. check_entry L name ver found = found @ extra \<and> set extra \<subseteq> set L"
  using match_iocs_subset [of L name ver] by (auto simp: check_entry_def)

lemma v1_loop_leaf:
  "map_of members ''dependencies'' = None \<Longrightarrow>
   v1_loop L ((name, JObj members) # rest) found =
     v1_loop L rest (check_entry L name (dict_get members ''version'') found)"
  by simp

lemma v1_loop_node:
  "map_of members ''dependencies'' = Some d \<Longrightarrow>
   v1_loop L ((name, JObj members) # rest) found =
     and_then (extract_from_v1 L d (check_entry L name (dict_get members ''version'') found))
       (v1_loop L rest)"
  by (simp add: and_then_def)

lemma v1_loop_not_obj:
  "(\<And>members. info \<noteq> JObj members) \<Longrightarrow> v1_loop L ((name, info) # rest) found = Inl AttributeError"
  by (cases info) auto

lemma v1_appends:
  "extract_from_v1 L d found = Inr found' \<Longrightarrow> \<exists>extra. found' = found @ extra \<and> set extra \<subseteq> set L"
  "v1_loop L kvs found = Inr found' \<Longrightarrow> \<exists>extra. found' = found @ extra \<and> set extra \<subseteq> set L"
proof (induction L d found and L kvs found arbitrary: found' and found' rule: extract_from_v1_v1_loop.induct)
  case (4 L name info rest found)
  from "4.prems" obtain members where info: "info = JObj members"
    by (cases info) simp_all
  let ?found1 = "check_entry L name (dict_get members ''version'') found"
  obtain e1 where f1: "?found1 = found @ e1" "set e1 \<subseteq> set L"
    using check_entry_appends by blast
  show ?case
  proof (cases "map_of members ''dependencies''")
    case None
    with "4.prems" info have "v1_loop L rest ?found1 = Inr found'"
      by simp
    from "4.IH"(1) [OF info None this] f1
    show ?thesis by auto
  next
    case (Some d)
    with "4.prems" info obtain found2 where
      a: "extract_from_v1 L d ?found1 = Inr found2" and b: "v1_loop L rest found2 = Inr found'"
      by (auto split: sum.splits)
    from "4.IH"(2) [OF info Some a] "4.IH"(3) [OF info Some a b] f1
    show ?thesis by auto
  qed
qed auto

lemma v1_entry_Cons:
  "v1_entry (JObj ((n, nfo) # rest)) name info \<longleftrightarrow>
     (name = n \<and> info = nfo)
     \<or> (\<exists>members d. nfo = JObj members \<and> map_of members ''dependencies'' = Some d
            \<and> v1_entry d name info)
     \<or> v1_entry (JObj rest) name info"
  (is "?lhs \<longleftrightarrow> ?rhs")
proof
  assume ?lhs
  then show ?rhs
  proof (cases rule: v1_entry.cases)
    case v1_entry_here
    then show ?thesis
      by (auto intro: v1_entry.v1_entry_here)
  next
    case (v1_entry_nested parent members d)
    then show ?thesis
      by (auto intro: v1_entry.v1_entry_nested)
  qed
next
  assume ?rhs
  then show ?lhs
  proof (elim disjE exE conjE)
    assume "name = n" "info = nfo"
    then show ?thesis by (simp add: v1_entry_here)
  next
    fix members d
    assume "nfo = JObj members" "map_of members ''dependencies'' = Some d" "v1_entry d name info"
    then show ?thesis
      by (auto intro: v1_entry_nested [where parent = n and members = members and d = d])
  next
    assume "v1_entry (JObj rest) name info"
    then show ?thesis
    proof (cases rule: v1_entry.cases)
      case v1_entry_here
      then show ?thesis by (auto intro: v1_entry.v1_entry_here)
    next
      case (v1_entry_nested parent members d)
      then show ?thesis
        by (auto intro: v1_entry.v1_entry_nested [where parent = parent and members = members and d = d])
    qed
  qed
qed

lemma v1_entry_Nil: "\<not> v1_entry (JObj []) name info"
  by (auto elim: v1_entry.cases)

lemma v1_entry_not_obj: "(\<And>kvs. d \<noteq> JObj kvs) \<Longrightarrow> \<not> v1_entry d name info"
  by (auto elim: v1_entry.cases)

lemma check_entry_hit:
  assumes "entry_matches L name (JObj members) i"
  shows "i \<in> set (check_entry L name (dict_get members ''version'') found)"
  using assms by (auto simp: entry_matches_def check_entry_def match_iocs_def)

lemma v1_finds:
  "extract_from_v1 L d found = Inr found' \<Longrightarrow> v1_entry d name info \<Longrightarrow> entry_matches L name info i
     \<Longrightarrow> i \<in> set found'"
  "v1_loop L kvs found = Inr found' \<Longrightarrow> v1_entry (JObj kvs) name info \<Longrightarrow> entry_matches L name info i
     \<Longrightarrow> i \<in> set found'"
proof (induction L d found and L kvs found arbitrary: found' and found'
    rule: extract_from_v1_v1_loop.induct)
  case (1 L deps found)
  then show ?case by simp
next
  case (3 L found)
  then show ?case by (simp add: v1_entry_Nil)
next
  case (4 L n nfo rest found)
  from "4.prems"(1) obtain members where nfo: "nfo = JObj members"
    by (cases nfo) simp_all
  let ?found1 = "check_entry L n (dict_get members ''version'') found"
  from "4.prems"(2) consider
      (here) "name = n" "info = nfo"
    | (nested) d where "map_of members ''dependencies'' = Some d" "v1_entry d name info"
    | (later) "v1_entry (JObj rest) name info"
    unfolding v1_entry_Cons nfo by auto
  then show ?case
  proof cases
    case here
    with "4.prems"(3) nfo have in1: "i \<in> set ?found1"
      by (simp add: check_entry_hit)
    show ?thesis
    proof (cases "map_of members ''dependencies''")
      case None
      with "4.prems"(1) nfo have "v1_loop L rest ?found1 = Inr found'" by simp
      from v1_appends(2) [OF this] in1 show ?thesis by auto
    next
      case (Some d)
      with "4.prems"(1) nfo obtain found2 where
        a: "extract_from_v1 L d ?found1 = Inr found2" and b: "v1_loop L rest found2 = Inr found'"
        by (auto split: sum.splits)
      from v1_appends(1) [OF a] v1_appends(2) [OF b] in1 show ?thesis by auto
    qed
  next
    case (nested d)
    with "4.prems"(1) nfo obtain found2 where
      a: "extract_from_v1 L d ?found1 = Inr found2" and b: "v1_loop L rest found2 = Inr found'"
      by (auto split: sum.splits)
    from "4.IH"(2) [OF nfo nested(1) a nested(2) "4.prems"(3)] have "i \<in> set found2" .
    with v1_appends(2) [OF b] show ?thesis by auto
  next
    case later
    show ?thesis
    proof (cases "map_of members ''dependencies''")
      case None
      with "4.prems"(1) nfo have r: "v1_loop L rest ?found1 = Inr found'" by simp
      from "4.IH"(1) [OF nfo None r later "4.prems"(3)] show ?thesis .
    next
      case (Some d)
      with "4.prems"(1) nfo obtain found2 where
        a: "extract_from_v1 L d ?found1 = Inr found2" and b: "v1_loop L rest found2 = Inr found'"
        by (auto split: sum.splits)
      from "4.IH"(3) [OF nfo Some a b later "4.prems"(3)] show ?thesis .
    qed
  qed
qed (simp_all add: v1_entry_not_obj)

lemma v1_total:
  "v1_shaped d \<Longrightarrow> \<exists>found'. extract_from_v1 L d found = Inr found'"
  "(\<And>name info. (name, info) \<in> set kvs \<Longrightarrow>
        \<exists>members. info = JObj members \<and>
          (\<forall>d. map_of members ''dependencies'' = Some d \<longrightarrow> v1_shaped d))
    \<Longrightarrow> \<exists>found'. v1_loop L kvs found = Inr found'"
proof (induction L d found and L kvs found rule: extract_from_v1_v1_loop.induct)
  case (1 L deps found)
  from "1.prems" have "\<And>name info. (name, info) \<in> set deps \<Longrightarrow>
        \<exists>members. info = JObj members \<and>
          (\<forall>d. map_of members ''dependencies'' = Some d \<longrightarrow> v1_shaped d)"
    by (auto elim: v1_shaped.cases)
  from "1.IH" [OF this] show ?case by simp
next
  case (3 L found)
  then show ?case by simp
next
  case (4 L n nfo rest found)
  from "4.prems" [of n nfo] obtain members where nfo: "nfo = JObj members"
    and sub: "\<And>d. map_of members ''dependencies'' = Some d \<Longrightarrow> v1_shaped d"
    by auto
  have rest: "\<And>name info. (name, info) \<in> set rest \<Longrightarrow>
        \<exists>members. info = JObj members \<and>
          (\<forall>d. map_of members ''dependencies'' = Some d \<longrightarrow> v1_shaped d)"
    using "4.prems" by auto
  let ?found1 = "check_entry L n (dict_get members ''version'') found"
  show ?case
  proof (cases "map_of members ''dependencies''")
    case None
    from "4.IH"(1) [OF nfo None rest] nfo None show ?thesis by simp
  next
    case (Some d)
    from "4.IH"(2) [OF nfo Some sub [OF Some]] obtain found2 where
      a: "extract_from_v1 L d ?found1 = Inr found2" by blast
    from "4.IH"(3) [OF nfo Some a rest] nfo Some a show ?thesis by simp
  qed
qed (auto elim: v1_shaped.cases)

lemma split_on_not_Nil: "split_on sep s \<noteq> []"
  by (induction s) (auto split: list.splits)

lemma split_on_append_sep:
  "sep \<notin> set a \<Longrightarrow> split_on sep (a @ sep # b) = a # split_on sep b"
  by (induction a) (auto split: list.splits)

lemma node_modules_name:
  assumes "startswith path ''node_modules/''"
  shows "\<exists>name. py_index (split_on CHR ''/'' path) 1 = Inr name"
proof -
  from assms obtain r where "path = ''node_modules/'' @ r"
    unfolding startswith_prefix prefix_def by blast
  then have "path = ''node_modules'' @ CHR ''/'' # r"
    by simp
  then have "split_on CHR ''/'' path = ''node_modules'' # split_on CHR ''/'' r"
    using split_on_append_sep [of "CHR ''/''" "''node_modules''" r] by simp
  then have "1 < length (split_on CHR ''/'' path)"
    using split_on_not_Nil [of "CHR ''/''" r] by (cases "split_on CHR ''/'' r") simp_all
  then show ?thesis
    by (simp add: py_index_def)
qed

lemma v2_appends:
  "v2_loop L kvs found = Inr found' \<Longrightarrow> \<exists>extra. found' = found @ extra \<and> set extra \<subseteq> set L"
proof (induction kvs arbitrary: found)
  case Nil
  then show ?case by simp
next
  case (Cons kv kvs)
  obtain path info where kv: "kv = (path, info)" by (cases kv)
  show ?case
  proof (cases "startswith path ''node_modules/''")
    case False
    with Cons kv show ?thesis by simp
  next
    case True
    with Cons.prems kv obtain name ver where
      "v2_loop L kvs (check_entry L name ver found) = Inr found'"
      by (auto simp: and_then_Inr_iff)
    from Cons.IH [OF this] check_entry_appends [of L name ver found]
    show ?thesis by auto
  qed
qed

lemma v2_total:
  assumes "v2_shaped p"
  shows "\<exists>found'. extract_from_v2 L p found = Inr found'"
proof -
  from assms obtain kvs where p: "p = JObj kvs"
    and all: "list_all (\<lambda>(path, info). startswith path ''node_modules/'' \<longrightarrow>
                 (case info of JObj members \<Rightarrow> True | _ \<Rightarrow> False)) kvs"
    by (auto simp: v2_shaped_def split: json.splits)
  from all have "\<exists>found'. v2_loop L kvs found = Inr found'"
  proof (induction kvs arbitrary: found)
    case Nil
    then show ?case by simp
  next
    case (Cons kv kvs)
    obtain path info where kv: "kv = (path, info)" by (cases kv)
    show ?case
    proof (cases "startswith path ''node_modules/''")
      case False
      with Cons kv show ?thesis by simp
    next
      case True
      with Cons.prems kv obtain members where info: "info = JObj members"
        by (cases info) simp_all
      from node_modules_name [OF True] obtain name where
        n: "py_index (split_on CHR ''/'' path) 1 = Inr name" by blast
      from Cons.prems have "list_all (\<lambda>(path, info). startswith path ''node_modules/'' \<longrightarrow>
                 (case info of JObj members \<Rightarrow> True | _ \<Rightarrow> False)) kvs"
        by simp
      from Cons.IH [OF this] True kv info n show ?thesis
        by simp
    qed
  qed
  with p show ?thesis by simp
qed

lemma py_in_obj: "py_in k (JObj kvs) = Inr (map_of kvs k \<noteq> None)"
  by (simp add: map_of_eq_None_iff)

lemma scan_packages:
  "map_of members ''packages'' = Some p \<Longrightarrow> scan L (JObj members) = extract_from_v2 L p []"
  by (simp add: scan_def py_in_obj del: py_in.simps)

lemma scan_dependencies:
  "map_of members ''packages'' = None \<Longrightarrow> map_of members ''dependencies'' = Some d \<Longrightarrow>
   scan L (JObj members) = extract_from_v1 L d []"
  by (simp add: scan_def py_in_obj del: py_in.simps)

lemma scan_neither:
  "map_of members ''packages'' = None \<Longrightarrow> map_of members ''dependencies'' = None \<Longrightarrow>
   scan L (JObj members) = Inr []"
  by (simp add: scan_def py_in_obj del: py_in.simps)

lemma extract_from_v2_appends:
  "extract_from_v2 L p found = Inr found' \<Longrightarrow> \<exists>extra. found' = found @ extra \<and> set extra \<subseteq> set L"
  by (cases p) (auto dest: v2_appends)

lemma scan_subset:
  assumes "scan L lock_data = Inr found"
  shows "set found \<subseteq> set L"
proof -
  from assms have
    "(\<exists>p. extract_from_v2 L p [] = Inr found) \<or> (\<exists>d. extract_from_v1 L d [] = Inr found) \<or> found = []"
    by (auto simp: scan_def and_then_Inr_iff split: if_splits)
  then show ?thesis
    using extract_from_v2_appends [of L _ "[]" found] v1_appends(1) [of L _ "[]" found]
    by auto
qed

lemma scan_total:
  assumes "lockfile_shaped lock_data"
  shows "\<exists>found. scan L lock_data = Inr found"
proof -
  from assms obtain members where m: "lock_data = JObj members"
    by (auto simp: lockfile_shaped_def split: json.splits)
  show ?thesis
  proof (cases "map_of members ''packages''")
    case (Some p)
    with assms m have "v2_shaped p" by (simp add: lockfile_shaped_def)
    from v2_total [OF this] Some m show ?thesis by (simp add: scan_packages)
  next
    case None
    show ?thesis
    proof (cases "map_of members ''dependencies''")
      case (Some d)
      with assms m None have "v1_shaped d" by (simp add: lockfile_shaped_def)
      from v1_total(1) [OF this] Some None m show ?thesis by (simp add: scan_dependencies)
    next
      case None2: None
      with None m show ?thesis by (simp add: scan_neither)
    qed
  qed
qed

lemma scrape_all_failed:
  "list_all (\<lambda>f. f = Fetch_failed) fs \<Longrightarrow> scrape fs st = st"
  by (induction fs st rule: scrape.induct) simp_all

lemma iocs_list_of_Nil: "iocs_list_of [] = []"
  by (simp add: iocs_list_of_def unique_iocs_def)

lemma dict_set_keys:
  "map fst (dict_set d k v) = (if k \<in> set (map fst d) then map fst d else map fst d @ [k])"
  by (induction d k v rule: dict_set.induct) auto

lemma dict_set_set:
  "set (dict_set d k v) \<subseteq> insert (k, v) (set d)"
  by (induction d k v rule: dict_set.induct) auto

lemma unique_iocs_inv:
  "distinct (map fst d) \<Longrightarrow> (\<forall>(k, i) \<in> set d. k = ioc_key i) \<Longrightarrow>
   distinct (map fst (foldl (\<lambda>d i. dict_set d (ioc_key i) i) d iocs))
   \<and> (\<forall>(k, i) \<in> set (foldl (\<lambda>d i. dict_set d (ioc_key i) i) d iocs). k = ioc_key i)"
proof (induction iocs arbitrary: d)
  case Nil
  then show ?case by simp
next
  case (Cons a iocs)
  have 1: "distinct (map fst (dict_set d (ioc_key a) a))"
    using Cons.prems(1) by (simp add: dict_set_keys)
  have 2: "\<forall>(k, i) \<in> set (dict_set d (ioc_key a) a). k = ioc_key i"
    using Cons.prems(2) dict_set_set [of d "ioc_key a" a] by auto
  from Cons.IH [OF 1 2] show ?case by simp
qed

lemma iocs_list_of_distinct: "distinct (map ioc_key (iocs_list_of iocs))"
proof -
  have d: "distinct (map fst (unique_iocs iocs))"
    and k: "\<forall>(k, i) \<in> set (unique_iocs iocs). k = ioc_key i"
    using unique_iocs_inv [of "[]" iocs] by (simp_all add: unique_iocs_def)
  from k have e: "map ioc_key (map snd (unique_iocs iocs)) = map fst (unique_iocs iocs)"
    unfolding map_map by (intro map_cong) auto
  show ?thesis
    unfolding iocs_list_of_def e by (rule d)
qed

lemma iocs_list_of_subset: "set (iocs_list_of iocs) \<subseteq> set iocs"
proof -
  have "snd ` set (foldl (\<lambda>d i. dict_set d (ioc_key i) i) d iocs) \<subseteq> snd ` set d \<union> set iocs" for d
  proof (induction iocs arbitrary: d)
    case Nil
    then show ?case by simp
  next
    case (Cons a iocs)
    have "snd ` set (dict_set d (ioc_key a) a) \<subseteq> insert a (snd ` set d)"
      using dict_set_set [of d "ioc_key a" a] by (metis image_mono image_insert snd_conv)
    with Cons [of "dict_set d (ioc_key a) a"] show ?case
      by (simp only: foldl_Cons set_simps) blast
  qed
  from this [of "[]"] show ?thesis
    by (simp add: iocs_list_of_def unique_iocs_def)
qed


lemma npm_scan_unfold:
  assumes "parse_args (drop 1 (argv w)) (''./package-lock.json'', False) = (lockfile_path, output_json)"
    and "scrape (fetches w) ([], False) = (iocs, fetched_online)"
  shows "npm_scan w =
     (case files w lockfile_path of
        None \<Rightarrow> Exited 2 (not_found_message lockfile_path)
      | Some (Inl e) \<Rightarrow> Uncaught e
      | Some (Inr lock_data) \<Rightarrow>
          (case scan (iocs_list_of iocs) lock_data of
             Inl e \<Rightarrow> Uncaught e
           | Inr found \<Rightarrow>
               Completed output_json
                 \<lparr>scanned_lockfile = lockfile_path,
                  status = (if found = [] then ''clean'' else ''compromised''),
                  fetched_from_internet = fetched_online,
                  findings = found,
                  iocs_source = iocs_list_of iocs\<rparr>))"
  using assms by (simp add: npm_scan_def Let_def)

lemma npm_scan_Completed:
  assumes "npm_scan w = Completed oj r"
    and pa: "parse_args (drop 1 (argv w)) (''./package-lock.json'', False) = (lockfile_path, output_json)"
    and sc: "scrape (fetches w) ([], False) = (iocs, fetched_online)"
  shows "\<exists>lock_data found.
           files w lockfile_path = Some (Inr lock_data)
           \<and> scan (iocs_list_of iocs) lock_data = Inr found
           \<and> oj = output_json
           \<and> r = \<lparr>scanned_lockfile = lockfile_path,
                 status = (if found = [] then ''clean'' else ''compromised''),
                 fetched_from_internet = fetched_online,
                 findings = found, iocs_source = iocs_list_of iocs\<rparr>"
proof (cases "files w lockfile_path")
  case None
  with assms show ?thesis
    by (simp add: npm_scan_unfold [OF pa sc])
next
  case (Some c)
  show ?thesis
  proof (cases c)
    case (Inl e)
    with Some assms show ?thesis
      by (simp add: npm_scan_unfold [OF pa sc])
  next
    case (Inr lock_data)
    show ?thesis
    proof (cases "scan (iocs_list_of iocs) lock_data")
      case (Inl e)
      with Some \<open>c = Inr lock_data\<close> assms show ?thesis
        by (simp add: npm_scan_unfold [OF pa sc])
    next
      case found: (Inr found)
      with Some Inr assms(1) have
        "Completed output_json \<lparr>scanned_lockfile = lockfile_path,
                 status = (if found = [] then ''clean'' else ''compromised''),
                 fetched_from_internet = fetched_online,
                 findings = found, iocs_source = iocs_list_of iocs\<rparr> = Completed oj r"
        by (simp add: npm_scan_unfold [OF pa sc])
      then have "oj = output_json" and "r = \<lparr>scanned_lockfile = lockfile_path,
                 status = (if found = [] then ''clean'' else ''compromised''),
                 fetched_from_internet = fetched_online,
                 findings = found, iocs_source = iocs_list_of iocs\<rparr>"
        by (simp_all only: run.inject)
      with Some Inr found show ?thesis by blast
    qed
  qed
qed

text \<open>
  C10. Every finding is an element of the deduplicated IOC list reported as
  \<open>iocs_source\<close>, which is the scraped list deduplicated by \<open>package@version\<close>.
\<close>

theorem findings_subset_iocs:
  assumes "npm_scan w = Completed output_json r"
  shows "set (findings r) \<subseteq> set (iocs_source r)
         \<and> iocs_source r = iocs_list_of (fst (scrape (fetches w) ([], False)))
         \<and> distinct (map ioc_key (iocs_source r))"
proof -
  obtain lockfile_path oj where pa:
    "parse_args (drop 1 (argv w)) (''./package-lock.json'', False) = (lockfile_path, oj)"
    by (cases "parse_args (drop 1 (argv w)) (''./package-lock.json'', False)")
  obtain iocs fetched_online where sc: "scrape (fetches w) ([], False) = (iocs, fetched_online)"
    by (cases "scrape (fetches w) ([], False)")
  from npm_scan_Completed [OF assms pa sc] obtain lock_data found where
    s: "scan (iocs_list_of iocs) lock_data = Inr found"
    and f: "findings r = found" and i: "iocs_source r = iocs_list_of iocs"
    by auto
  from scan_subset [OF s] have "set (findings r) \<subseteq> set (iocs_source r)"
    by (simp add: f i)
  moreover have "iocs_source r = iocs_list_of (fst (scrape (fetches w) ([], False)))"
    by (simp add: i sc)
  moreover have "distinct (map ioc_key (iocs_source r))"
    by (simp add: i iocs_list_of_distinct)
  ultimately show ?thesis by blast
qed

theorem findings_subset_iocs_witness:
  "npm_scan chalk_world =
     Completed False \<lparr>scanned_lockfile = ''./package-lock.json'', status = ''compromised'',
       fetched_from_internet = True, findings = [chalk_ioc], iocs_source = [chalk_ioc, debug_ioc]\<rparr>
   \<and> set [chalk_ioc] \<subseteq> set [chalk_ioc, debug_ioc]
   \<and> distinct (map ioc_key [chalk_ioc, debug_ioc])"
proof -
  let ?r = "\<lparr>scanned_lockfile = ''./package-lock.json'', status = ''compromised'',
       fetched_from_internet = True, findings = [chalk_ioc], iocs_source = [chalk_ioc, debug_ioc]\<rparr>"
  have run: "npm_scan chalk_world = Completed False ?r"
    by code_simp
  from findings_subset_iocs [OF run]
  have a: "set (findings ?r) \<subseteq> set (iocs_source ?r)"
    and c: "distinct (map ioc_key (iocs_source ?r))"
    by blast+
  from a c run show ?thesis
    by simp
qed

lemma scan_no_iocs:
  assumes "scan [] lock_data = Inr found"
  shows "found = []"
  using scan_subset [OF assms] by simp

lemma empty_iocs_no_findings:
  assumes "npm_scan w = Completed oj r" and "iocs_source r = []"
  shows "findings r = [] \<and> status r = ''clean''"
proof -
  obtain lockfile_path output_json where pa:
    "parse_args (drop 1 (argv w)) (''./package-lock.json'', False) = (lockfile_path, output_json)"
    by (cases "parse_args (drop 1 (argv w)) (''./package-lock.json'', False)")
  obtain iocs fetched_online where sc: "scrape (fetches w) ([], False) = (iocs, fetched_online)"
    by (cases "scrape (fetches w) ([], False)")
  from npm_scan_Completed [OF assms(1) pa sc] obtain lock_data found where
    s: "scan (iocs_list_of iocs) lock_data = Inr found"
    and f: "findings r = found" and i: "iocs_source r = iocs_list_of iocs"
    and st: "status r = (if found = [] then ''clean'' else ''compromised'')"
    by auto
  from scan_subset [OF s] i assms(2) have "found = []"
    by simp
  with f st show ?thesis
    by simp
qed

lemma scan_not_a_container:
  "scan L JNull = Inl TypeError" "scan L (JBool b) = Inl TypeError"
  "scan L (JInt n) = Inl TypeError" "scan L (JFloat x) = Inl TypeError"
  by (simp_all add: scan_def)

text \<open>
  C3. When every advisory fetch failed, the deduplicated IOC list is empty, and for
  every lockfile document the findings list is empty, the status is \<open>clean\<close> and
  \<open>fetched_online\<close> is false. The run reaches its report on every well-shaped lockfile;
  on any document at all, a run that reaches its report reports exactly that.
\<close>

theorem all_fetches_failed_clean:
  assumes "list_all (\<lambda>f. f = Fetch_failed) (fetches w)"
    and "parse_args (drop 1 (argv w)) (''./package-lock.json'', False) = (lockfile_path, output_json)"
    and "files w lockfile_path = Some (Inr lock_data)"
  shows "(lockfile_shaped lock_data \<longrightarrow>
            npm_scan w =
              Completed output_json
                \<lparr>scanned_lockfile = lockfile_path, status = ''clean'',
                 fetched_from_internet = False, findings = [], iocs_source = []\<rparr>)
         \<and> (\<forall>oj r. npm_scan w = Completed oj r \<longrightarrow>
                findings r = [] \<and> status r = ''clean'' \<and> \<not> fetched_from_internet r
                \<and> iocs_source r = [])"
proof -
  have sc: "scrape (fetches w) ([], False) = ([], False)"
    using assms(1) by (rule scrape_all_failed)
  note unfold = npm_scan_unfold [OF assms(2) sc]
  have completed: "findings r = [] \<and> status r = ''clean'' \<and> \<not> fetched_from_internet r
      \<and> iocs_source r = []" if "npm_scan w = Completed oj r" for oj r
  proof -
    from npm_scan_Completed [OF that assms(2) sc] obtain ld found where
      s: "scan (iocs_list_of []) ld = Inr found"
      and r: "r = \<lparr>scanned_lockfile = lockfile_path,
                 status = (if found = [] then ''clean'' else ''compromised''),
                 fetched_from_internet = False,
                 findings = found, iocs_source = iocs_list_of []\<rparr>"
      by blast
    from s have "found = []"
      by (simp add: iocs_list_of_Nil scan_no_iocs)
    with r show ?thesis
      by (simp add: iocs_list_of_Nil)
  qed
  have shaped: "npm_scan w =
              Completed output_json
                \<lparr>scanned_lockfile = lockfile_path, status = ''clean'',
                 fetched_from_internet = False, findings = [], iocs_source = []\<rparr>"
    if "lockfile_shaped lock_data"
  proof -
    from scan_total [OF that] obtain found where s: "scan (iocs_list_of []) lock_data = Inr found"
      by blast
    then have "found = []"
      by (simp add: iocs_list_of_Nil scan_no_iocs)
    with s show ?thesis
      by (simp add: unfold assms(3) iocs_list_of_Nil)
  qed
  from completed shaped show ?thesis
    by blast
qed

theorem all_fetches_failed_clean_witness:
  "list_all (\<lambda>f. f = Fetch_failed) (fetches offline_world)
   \<and> lockfile_shaped chalk_lock_v2
   \<and> npm_scan offline_world =
       Completed False
         \<lparr>scanned_lockfile = ''./package-lock.json'', status = ''clean'',
          fetched_from_internet = False, findings = [], iocs_source = []\<rparr>"
proof -
  have 1: "list_all (\<lambda>f. f = Fetch_failed) (fetches offline_world)"
    by (simp add: offline_world_def)
  have 2: "parse_args (drop 1 (argv offline_world)) (''./package-lock.json'', False)
             = (''./package-lock.json'', False)"
    by (simp add: offline_world_def)
  have 3: "files offline_world ''./package-lock.json'' = Some (Inr chalk_lock_v2)"
    by (simp add: offline_world_def default_files_def)
  have 4: "lockfile_shaped chalk_lock_v2"
    by code_simp
  from all_fetches_failed_clean [OF 1 2 3] 1 4 show ?thesis
    by blast
qed

text \<open>
  C8. For a parsed lockfile document (a JSON object): with a top-level \<open>packages\<close> key
  the flat (v2) walk runs on its value; otherwise with a top-level \<open>dependencies\<close> key
  the recursive (v1) walk runs on its value; with neither key nothing is scanned and the
  findings list is empty, with no error.
\<close>

theorem schema_dispatch:
  "(map_of members ''packages'' = Some p \<longrightarrow>
      scan iocs_list (JObj members) = extract_from_v2 iocs_list p [])
   \<and> (map_of members ''packages'' = None \<and> map_of members ''dependencies'' = Some d \<longrightarrow>
      scan iocs_list (JObj members) = extract_from_v1 iocs_list d [])
   \<and> (map_of members ''packages'' = None \<and> map_of members ''dependencies'' = None \<longrightarrow>
      scan iocs_list (JObj members) = Inr [])"
  by (simp add: scan_packages scan_dependencies scan_neither)

theorem schema_dispatch_witness:
  "scan [chalk_ioc] chalk_lock_v2 = Inr [chalk_ioc]
   \<and> scan [chalk_ioc] deep_lock_v1 = Inr [chalk_ioc]
   \<and> scan [chalk_ioc] (JObj [(''name'', JStr ''app'')]) = Inr []"
proof -
  let ?p = "JObj [(''node_modules/chalk'', JObj [(''version'', JStr ''5.6.1'')])]"
  have v2: "extract_from_v2 [chalk_ioc] ?p [] = Inr [chalk_ioc]"
    by code_simp
  have v1: "extract_from_v1 [chalk_ioc] deep_deps [] = Inr [chalk_ioc]"
    by code_simp
  have a: "scan [chalk_ioc] chalk_lock_v2 = extract_from_v2 [chalk_ioc] ?p []"
    using schema_dispatch [of "[(''packages'', ?p)]" ?p "[chalk_ioc]"]
    by (simp add: chalk_lock_v2_def)
  have b: "scan [chalk_ioc] deep_lock_v1 = extract_from_v1 [chalk_ioc] deep_deps []"
    using schema_dispatch [of "[(''lockfileVersion'', JInt 1), (''dependencies'', deep_deps)]"
        _ "[chalk_ioc]" deep_deps]
    by (simp add: deep_lock_v1_def)
  have c: "scan [chalk_ioc] (JObj [(''name'', JStr ''app'')]) = Inr []"
    using schema_dispatch [of "[(''name'', JStr ''app'')]" _ "[chalk_ioc]"]
    by simp
  show ?thesis
    unfolding a b c v1 v2 by simp
qed

text \<open>
  C4. In a schema-v1 dependency map, an entry at any nesting depth whose name and
  version are those of an IOC of the list ends up in the findings, whatever its
  ancestors matched: every walk that returns holds it, and on a well-shaped map the walk
  does return.
\<close>

theorem v1_walk_reaches_every_depth:
  assumes "v1_entry deps name info"
    and "info = JObj members"
    and "dict_get members ''version'' = JStr (version i)"
    and "version i \<noteq> []"
    and "package i = name"
    and "i \<in> set iocs_list"
  shows "(\<forall>found'. extract_from_v1 iocs_list deps found = Inr found' \<longrightarrow> i \<in> set found')
         \<and> (v1_shaped deps \<longrightarrow>
               (\<exists>found'. extract_from_v1 iocs_list deps found = Inr found' \<and> i \<in> set found'))"
proof -
  have m: "entry_matches iocs_list name info i"
    using assms(2-6) by (simp add: entry_matches_def)
  have 1: "i \<in> set found'" if "extract_from_v1 iocs_list deps found = Inr found'" for found'
    using that assms(1) m by (rule v1_finds(1))
  moreover have "\<exists>found'. extract_from_v1 iocs_list deps found = Inr found' \<and> i \<in> set found'"
    if "v1_shaped deps"
    using v1_total(1) [OF that, of iocs_list found] 1 by blast
  ultimately show ?thesis
    by blast
qed

theorem v1_walk_reaches_every_depth_witness:
  "v1_entry deep_deps ''chalk'' (JObj [(''version'', JStr ''5.6.1'')])
   \<and> v1_shaped deep_deps
   \<and> extract_from_v1 [debug_ioc, chalk_ioc] deep_deps [] = Inr [chalk_ioc]
   \<and> chalk_ioc \<in> set [chalk_ioc]"
proof -
  have e: "v1_entry deep_deps ''chalk'' (JObj [(''version'', JStr ''5.6.1'')])"
    unfolding deep_deps_def
    by (rule v1_entry_nested [where parent = "''app''"], simp, simp,
        rule v1_entry_nested [where parent = "''ui''"], simp, simp,
        rule v1_entry_here, simp)
  have s: "v1_shaped deep_deps"
    unfolding deep_deps_def
    by (intro v1_shapedI) (auto intro!: v1_shapedI)
  have r: "extract_from_v1 [debug_ioc, chalk_ioc] deep_deps [] = Inr [chalk_ioc]"
    by code_simp
  have "chalk_ioc \<in> set [chalk_ioc]"
    using v1_walk_reaches_every_depth
      [OF e refl, of chalk_ioc "[debug_ioc, chalk_ioc]" "[]"] r
    by (simp add: dict_get_def chalk_ioc_def)
  with e s r show ?thesis
    by blast
qed

text \<open>
  C9. The script exits with status 2, after printing a message that names the path,
  exactly when the resolved lockfile path is not a file; it exits with status 0 exactly
  when it runs to its end, whether the status reported is \<open>clean\<close> or \<open>compromised\<close>,
  and it does run to its end on every well-shaped lockfile.
\<close>

theorem exit_status_contract:
  assumes "parse_args (drop 1 (argv w)) (''./package-lock.json'', False) = (lockfile_path, output_json)"
  shows "(exit_status (npm_scan w) = 2 \<longleftrightarrow> files w lockfile_path = None)
         \<and> (files w lockfile_path = None \<longrightarrow>
               npm_scan w = Exited 2 (not_found_message lockfile_path)
               \<and> sublist lockfile_path (not_found_message lockfile_path))
         \<and> (exit_status (npm_scan w) = 0 \<longleftrightarrow> (\<exists>r. npm_scan w = Completed output_json r))
         \<and> (\<forall>r. npm_scan w = Completed output_json r \<longrightarrow>
               status r = ''clean'' \<or> status r = ''compromised'')
         \<and> (\<forall>lock_data. files w lockfile_path = Some (Inr lock_data) \<and> lockfile_shaped lock_data
               \<longrightarrow> exit_status (npm_scan w) = 0)"
proof -
  obtain iocs fetched_online where sc: "scrape (fetches w) ([], False) = (iocs, fetched_online)"
    by (cases "scrape (fetches w) ([], False)")
  note unfold = npm_scan_unfold [OF assms sc]
  have two: "exit_status (npm_scan w) = 2 \<longleftrightarrow> files w lockfile_path = None"
    by (simp add: unfold split: option.splits sum.splits)
  have msg: "sublist lockfile_path (not_found_message lockfile_path)"
    unfolding not_found_message_def sublist_def
    by (rule exI [of _ "''Arquivo '' @ [CHR 0x27]"], rule exI) simp
  have missing: "npm_scan w = Exited 2 (not_found_message lockfile_path)"
    if "files w lockfile_path = None"
    using that by (simp add: unfold)
  have zero: "exit_status (npm_scan w) = 0 \<longleftrightarrow> (\<exists>r. npm_scan w = Completed output_json r)"
    by (simp add: unfold split: option.splits sum.splits)
  have st: "status r = ''clean'' \<or> status r = ''compromised''"
    if "npm_scan w = Completed output_json r" for r
    using npm_scan_Completed [OF that assms sc] by (auto split: if_splits)
  have ok: "exit_status (npm_scan w) = 0"
    if "files w lockfile_path = Some (Inr lock_data)" "lockfile_shaped lock_data" for lock_data
    using scan_total [OF that(2), of "iocs_list_of iocs"] that(1)
    by (auto simp: unfold)
  from two msg missing zero st ok show ?thesis
    by blast
qed

theorem exit_status_contract_witness:
  "exit_status (npm_scan missing_world) = 2
   \<and> npm_scan missing_world = Exited 2 (not_found_message ''nowhere.json'')
   \<and> exit_status (npm_scan chalk_world) = 0
   \<and> exit_status (npm_scan offline_world) = 0"
proof -
  have m: "parse_args (drop 1 (argv missing_world)) (''./package-lock.json'', False)
             = (''nowhere.json'', False)"
    by (simp add: missing_world_def)
  have mf: "files missing_world ''nowhere.json'' = None"
    by (simp add: missing_world_def default_files_def)
  have c: "parse_args (drop 1 (argv chalk_world)) (''./package-lock.json'', False)
             = (''./package-lock.json'', False)"
    by (simp add: chalk_world_def)
  have cf: "files chalk_world ''./package-lock.json'' = Some (Inr chalk_lock_v2)"
    by (simp add: chalk_world_def default_files_def)
  have ok: "parse_args (drop 1 (argv offline_world)) (''./package-lock.json'', False)
             = (''./package-lock.json'', False)"
    by (simp add: offline_world_def)
  have okf: "files offline_world ''./package-lock.json'' = Some (Inr chalk_lock_v2)"
    by (simp add: offline_world_def default_files_def)
  have sh: "lockfile_shaped chalk_lock_v2"
    by code_simp
  from exit_status_contract [OF m] mf exit_status_contract [OF c] cf
    exit_status_contract [OF ok] okf sh
  show ?thesis
    by blast
qed

section \<open>The normalizer and the ranked views\<close>

lemma model_row_Some:
  assumes "model_row B m = Inr (Some r)"
  shows "\<exists>ctx p_in p_out.
           ctx_of B m = Inr ctx \<and> price_of B m ''prompt'' = Inr (Some p_in)
           \<and> price_of B m ''completion'' = Inr (Some p_out)
           \<and> 0 < ctx \<and> 0 \<le> p_in \<and> 0 \<le> p_out
           \<and> row_context r = ctx \<and> row_price_in r = p_in \<and> row_price_out r = p_out"
proof -
  obtain mid where 1: "py_get m ''id'' JNull = Inr mid"
    using assms by (cases "py_get m ''id'' JNull") (simp_all add: model_row_def)
  obtain name where 2: "py_get m ''name'' JNull = Inr name"
    using assms 1 by (cases "py_get m ''name'' JNull") (simp_all add: model_row_def)
  have 3: "is_router mid name = Inr False"
  proof (cases "is_router mid name")
    case (Inl e)
    with assms 1 2 show ?thesis by (simp add: model_row_def)
  next
    case (Inr router)
    with assms 1 2 show ?thesis by (cases router) (simp_all add: model_row_def)
  qed
  obtain ctx where 4: "ctx_of B m = Inr ctx"
    using assms 1 2 3 by (cases "ctx_of B m") (simp_all add: model_row_def)
  obtain pi where 5: "price_of B m ''prompt'' = Inr pi"
    using assms 1 2 3 4 by (cases "price_of B m ''prompt''") (simp_all add: model_row_def)
  obtain po where 6: "price_of B m ''completion'' = Inr po"
    using assms 1 2 3 4 5 by (cases "price_of B m ''completion''") (simp_all add: model_row_def)
  obtain p_in where 7: "pi = Some p_in"
    using assms 1 2 3 4 5 6 by (cases pi) (simp_all add: model_row_def)
  obtain p_out where 8: "po = Some p_out"
    using assms 1 2 3 4 5 6 7 by (cases po) (simp_all add: model_row_def)
  have 9: "\<not> (p_in < 0 \<or> p_out < 0 \<or> ctx \<le> 0)"
  proof
    assume "p_in < 0 \<or> p_out < 0 \<or> ctx \<le> 0"
    with assms 1 2 3 4 5 6 7 8 show False by (simp add: model_row_def)
  qed
  obtain fam where 10: "family mid = Inr fam"
    using assms 1 2 3 4 5 6 7 8 9 by (cases "family mid") (simp_all add: model_row_def)
  obtain fr where 11: "detect_free mid name p_in p_out = Inr fr"
    using assms 1 2 3 4 5 6 7 8 9 10
    by (cases "detect_free mid name p_in p_out") (simp_all add: model_row_def)
  have "r = \<lparr>row_id = mid, row_name = name, row_family = fam,
              row_context = ctx, row_price_in = p_in, row_price_out = p_out,
              row_score = round_float (score p_in p_out ctx) 12,
              row_free = fr, row_streaming = ''SSE (stream=true)''\<rparr>"
    using assms 1 2 3 4 5 6 7 8 9 10 11 by (simp add: model_row_def)
  with 4 5 6 7 8 9 show ?thesis
    by simp
qed

lemma rankable_of_row:
  assumes "model_row B m = Inr (Some r)"
  shows "\<not> unrankable B m"
  using model_row_Some [OF assms] by (auto simp: unrankable_def)

lemma rows_loop_rows:
  "rows_loop B ms acc = Inr df \<Longrightarrow>
     set df \<subseteq> set acc \<union> {r. \<exists>m \<in> set ms. model_row B m = Inr (Some r)}"
proof (induction ms arbitrary: acc)
  case Nil
  then show ?case by simp
next
  case (Cons m ms)
  show ?case
  proof (cases "model_row B m")
    case (Inl e)
    with Cons.prems show ?thesis by simp
  next
    case (Inr opt)
    show ?thesis
    proof (cases opt)
      case None
      with Inr Cons.prems have "rows_loop B ms acc = Inr df" by simp
      from Cons.IH [OF this] show ?thesis by auto
    next
      case (Some r)
      with Inr Cons.prems have "rows_loop B ms (acc @ [r]) = Inr df" by simp
      from Cons.IH [OF this] Inr Some show ?thesis by auto
    qed
  qed
qed

lemma rows_loop_no_raise:
  "rows_loop B ms acc = Inr df \<Longrightarrow> m \<in> set ms \<Longrightarrow> \<exists>opt. model_row B m = Inr opt"
proof (induction ms arbitrary: acc)
  case Nil
  then show ?case by simp
next
  case (Cons a ms)
  then show ?case
    by (cases "model_row B a") (auto split: option.splits)
qed

lemma round_half_even_nonneg:
  assumes "0 \<le> x"
  shows "0 \<le> round_half_even x"
proof -
  define f where "f = \<lfloor>x\<rfloor>"
  define d where "d = x - real_of_int f"
  have f: "0 \<le> f" using assms by (simp add: f_def)
  have "round_half_even x =
      (if d < 1 / 2 then f else if 1 / 2 < d then f + 1 else if even f then f else f + 1)"
    unfolding round_half_even_def Let_def f_def d_def ..
  with f show ?thesis
    by auto
qed

lemma py_round_nonneg:
  assumes "0 \<le> x"
  shows "0 \<le> py_round x n"
proof -
  have "0 \<le> x * 10 ^ n" using assms by simp
  then have "0 \<le> round_half_even (x * 10 ^ n)"
    by (rule round_half_even_nonneg)
  then have "0 \<le> real_of_int (round_half_even (x * 10 ^ n))"
    by simp
  then show ?thesis
    unfolding py_round_def by (rule divide_nonneg_nonneg) simp
qed

lemma top10_subset: "set (top10 df) \<subseteq> set df"
  unfolding top10_def
  using set_take_subset [of 10 "sort_key (\<lambda>r. (row_score r, row_price_in r, row_price_out r, - row_context r)) df"]
  by simp

lemma free5_subset: "set (free5 df) \<subseteq> set df"
  unfolding free5_def
  using set_take_subset [of 5 "sort_key (\<lambda>r. (- row_context r, row_price_in r, row_price_out r)) (filter row_free df)"]
  by auto


lemma group_first_row:
  "b \<in> set (group_first g) \<Longrightarrow> \<exists>r \<in> set g. \<exists>i n. b = r\<lparr>row_id := i, row_name := n\<rparr>"
  by (cases g) auto

lemma groupby_family_first_row:
  "b \<in> set (groupby_family_first df) \<Longrightarrow> \<exists>r \<in> set df. \<exists>i n. b = r\<lparr>row_id := i, row_name := n\<rparr>"
  unfolding groupby_family_first_def
  by (fastforce dest!: group_first_row)

lemma best_per_family_row:
  assumes "b \<in> set (best_per_family df)"
  shows "\<exists>r \<in> set df. \<exists>i n. b = r\<lparr>row_id := i, row_name := n\<rparr>"
proof -
  from assms have "b \<in> set (groupby_family_first
          (sort_key (\<lambda>r. (row_family r, row_score r, row_price_in r, row_price_out r,
                           - row_context r)) df))"
    by (simp add: best_per_family_def)
  from groupby_family_first_row [OF this] show ?thesis
    by simp
qed


lemma format_view_positive:
  assumes "\<forall>r \<in> set v. 0 < row_context r \<and> 0 \<le> row_price_in r \<and> 0 \<le> row_price_out r"
    and "x \<in> set (format_view v)"
  shows "0 < row_context x \<and> 0 \<le> row_price_in x \<and> 0 \<le> row_price_out x"
proof -
  from assms(2) obtain r where r: "r \<in> set v"
    and x: "x = r\<lparr>row_price_in := py_round (row_price_in r) 10,
                   row_price_out := py_round (row_price_out r) 10\<rparr>"
    by (auto simp: format_view_def)
  from assms(1) r have "0 < row_context r" "0 \<le> row_price_in r" "0 \<le> row_price_out r"
    by auto
  then show ?thesis
    by (simp add: x py_round_nonneg)
qed

text \<open>
  What the script writes to its three sheets are the formatted views of a non-empty
  normalized set.
\<close>

lemma export_views_Inr:
  assumes "export_views B body = Inr (t, f, b)"
  shows "\<exists>data models df.
           py_get body ''data'' (JArr []) = Inr data \<and> py_iter data = Inr models
           \<and> normalize B models = Inr df \<and> df \<noteq> []
           \<and> t = format_view (top10 df) \<and> f = format_view (free5 df)
           \<and> b = format_view (best_per_family df)"
proof -
  from assms obtain data models df v where
    1: "py_get body ''data'' (JArr []) = Inr data" and 2: "py_iter data = Inr models"
    and 3: "normalize B models = Inr df" and 4: "ranked df = Inr v"
    and 5: "(case v of (t', f', b') \<Rightarrow> Inr (format_view t', format_view f', format_view b'))
              = (Inr (t, f, b) :: py_error + (row list \<times> row list \<times> row list))"
    unfolding export_views_def and_then_Inr_iff by blast
  from 4 have ne: "df \<noteq> []" and v: "v = (top10 df, free5 df, best_per_family df)"
    by (auto simp: ranked_def split: if_splits)
  from 5 v have "t = format_view (top10 df)" "f = format_view (free5 df)"
    "b = format_view (best_per_family df)"
    by simp_all
  with 1 2 3 ne show ?thesis
    by blast
qed

text \<open>
  C2. A record whose effective context length is zero or less, or whose prompt or
  completion price is absent or negative, is skipped by the normalizer; every row of the
  normalized set comes from a record that is none of these; every row of the global
  top 10 and of the free top 5 is a row of the normalized set, every row of the best per
  family is one up to its id and name; and after the price formatting every row of the
  three outputs still has a positive context and non-negative prices.
\<close>

theorem unrankable_never_ranked:
  assumes "normalize B models = Inr df"
  shows "(\<forall>m \<in> set models. unrankable B m \<longrightarrow> model_row B m = Inr None)
         \<and> (\<forall>r \<in> set df.
               (\<exists>m \<in> set models. model_row B m = Inr (Some r) \<and> \<not> unrankable B m)
               \<and> 0 < row_context r \<and> 0 \<le> row_price_in r \<and> 0 \<le> row_price_out r)
         \<and> set (top10 df) \<subseteq> set df
         \<and> set (free5 df) \<subseteq> set df
         \<and> (\<forall>b \<in> set (best_per_family df).
               \<exists>r \<in> set df. \<exists>i n. b = r\<lparr>row_id := i, row_name := n\<rparr>)
         \<and> (\<forall>x \<in> set (format_view (top10 df)) \<union> set (format_view (free5 df))
                    \<union> set (format_view (best_per_family df)).
               0 < row_context x \<and> 0 \<le> row_price_in x \<and> 0 \<le> row_price_out x)"
proof -
  have loop: "rows_loop B models [] = Inr df"
    using assms by (simp add: normalize_def)
  have skipped: "model_row B m = Inr None" if "m \<in> set models" "unrankable B m" for m
  proof -
    from rows_loop_no_raise [OF loop that(1)] obtain opt where o: "model_row B m = Inr opt"
      by blast
    show ?thesis
    proof (cases opt)
      case None
      with o show ?thesis by simp
    next
      case (Some r)
      with o rankable_of_row [of B m r] that(2) show ?thesis by simp
    qed
  qed
  have origin: "\<exists>m \<in> set models. model_row B m = Inr (Some r) \<and> \<not> unrankable B m"
    if "r \<in> set df" for r
    using rows_loop_rows [OF loop] that rankable_of_row by fastforce
  have pos: "0 < row_context r \<and> 0 \<le> row_price_in r \<and> 0 \<le> row_price_out r"
    if "r \<in> set df" for r
  proof -
    from origin [OF that] obtain m where "model_row B m = Inr (Some r)" by blast
    from model_row_Some [OF this] show ?thesis by auto
  qed
  have bpf: "\<exists>r \<in> set df. \<exists>i n. b = r\<lparr>row_id := i, row_name := n\<rparr>"
    if "b \<in> set (best_per_family df)" for b
    using that by (rule best_per_family_row)
  have pos_top: "\<forall>r \<in> set (top10 df). 0 < row_context r \<and> 0 \<le> row_price_in r \<and> 0 \<le> row_price_out r"
    using pos top10_subset by blast
  have pos_free: "\<forall>r \<in> set (free5 df). 0 < row_context r \<and> 0 \<le> row_price_in r \<and> 0 \<le> row_price_out r"
    using pos free5_subset by blast
  have pos_bpf: "\<forall>b \<in> set (best_per_family df). 0 < row_context b \<and> 0 \<le> row_price_in b \<and> 0 \<le> row_price_out b"
  proof
    fix b assume "b \<in> set (best_per_family df)"
    from bpf [OF this] obtain r i n where "r \<in> set df" "b = r\<lparr>row_id := i, row_name := n\<rparr>"
      by blast
    with pos [of r] show "0 < row_context b \<and> 0 \<le> row_price_in b \<and> 0 \<le> row_price_out b"
      by simp
  qed
  have fmt: "0 < row_context x \<and> 0 \<le> row_price_in x \<and> 0 \<le> row_price_out x"
    if "x \<in> set (format_view (top10 df)) \<union> set (format_view (free5 df))
              \<union> set (format_view (best_per_family df))" for x
    using that format_view_positive [OF pos_top] format_view_positive [OF pos_free]
      format_view_positive [OF pos_bpf] by blast
  from skipped origin pos bpf fmt top10_subset [of df] free5_subset [of df]
  show ?thesis
    by blast
qed

theorem unrankable_never_ranked_witness:
  "normalize decimal_builtins [acme_a, zero_ctx, acme_b, other_c] = Inr [row_a, row_b, row_c]
   \<and> unrankable decimal_builtins zero_ctx
   \<and> model_row decimal_builtins zero_ctx = Inr None
   \<and> set (top10 [row_a, row_b, row_c]) \<subseteq> set [row_a, row_b, row_c]"
proof -
  have n: "normalize decimal_builtins [acme_a, zero_ctx, acme_b, other_c] = Inr [row_a, row_b, row_c]"
    by code_simp
  have u: "unrankable decimal_builtins zero_ctx"
    by code_simp
  from unrankable_never_ranked [OF n] u
  have "model_row decimal_builtins zero_ctx = Inr None"
    and "set (top10 [row_a, row_b, row_c]) \<subseteq> set [row_a, row_b, row_c]"
    by simp_all
  with n u show ?thesis
    by blast
qed

subsection \<open>What holds of the best-per-family view\<close>

lemma group_first_family:
  assumes "g \<noteq> []" and "\<forall>r \<in> set g. row_family r = k"
  shows "map row_family (group_first g) = [k]"
  using assms by (cases g) auto

lemma groupby_families_aux:
  assumes "set ks \<subseteq> row_family ` set xs"
  shows "map row_family (concat (map (\<lambda>k. group_first (filter (\<lambda>r. row_family r = k) xs)) ks)) = ks"
  using assms
proof (induction ks)
  case Nil
  then show ?case by simp
next
  case (Cons k ks)
  from Cons.prems obtain r where "r \<in> set xs" "row_family r = k"
    by auto
  then have "filter (\<lambda>r. row_family r = k) xs \<noteq> []"
    by (auto simp: filter_empty_conv)
  then have "map row_family (group_first (filter (\<lambda>r. row_family r = k) xs)) = [k]"
    by (rule group_first_family) simp
  with Cons show ?case
    by simp
qed

lemma groupby_families:
  "map row_family (groupby_family_first xs) = sort (remdups (map row_family xs))"
  unfolding groupby_family_first_def
  by (rule groupby_families_aux) simp

lemma best_per_family_families:
  "distinct (map row_family (best_per_family df))"
  "set (map row_family (best_per_family df)) = set (map row_family df)"
proof -
  let ?s = "sort_key (\<lambda>r. (row_family r, row_score r, row_price_in r, row_price_out r,
                           - row_context r)) df"
  let ?g = "groupby_family_first ?s"
  have fam: "map row_family ?g = sort (remdups (map row_family ?s))"
    by (rule groupby_families)
  then have d: "distinct (map row_family ?g)"
    by simp
  then have "distinct ?g" "inj_on row_family (set ?g)"
    by (simp_all add: distinct_map)
  then have "distinct (map row_family (sort_key row_score ?g))"
    by (simp add: distinct_map)
  then show "distinct (map row_family (best_per_family df))"
    by (simp add: best_per_family_def)
  have "set (map row_family ?g) = set (map row_family df)"
    unfolding fam by simp
  then show "set (map row_family (best_per_family df)) = set (map row_family df)"
    by (simp add: best_per_family_def)
qed

lemma best_per_family_sorted: "sorted (map row_score (best_per_family df))"
  unfolding best_per_family_def by (rule sorted_sort_key)

lemma first_notna_Cons: "v \<noteq> JNull \<Longrightarrow> first_notna (v # vs) = v"
  by (simp add: first_notna_def)

lemma group_head_minimal:
  assumes "filter (\<lambda>r. row_family r = k)
             (sort_key (\<lambda>r. (row_family r, row_score r, row_price_in r, row_price_out r,
                              - row_context r)) df) = h # t"
  shows "h \<in> set df \<and> row_family h = k
         \<and> (\<forall>r \<in> set df. row_family r = k \<longrightarrow> rank_key h \<le> rank_key r)"
proof -
  let ?K = "\<lambda>r. (row_family r, row_score r, row_price_in r, row_price_out r, - row_context r)"
  let ?P = "\<lambda>r. row_family r = k"
  have mem: "set (h # t) = {r \<in> set df. row_family r = k}"
    unfolding assms [symmetric] by auto
  then have h: "h \<in> set df" "row_family h = k"
    by auto
  have "sorted (map ?K (filter ?P (sort_key ?K df)))"
    by (rule sorted_filter) (rule sorted_sort_key)
  then have "sorted (map ?K (h # t))"
    by (simp only: assms)
  then have le: "\<forall>r \<in> set t. ?K h \<le> ?K r"
    by simp
  have "rank_key h \<le> rank_key r" if "r \<in> set df" "row_family r = k" for r
  proof -
    from that mem have "r = h \<or> r \<in> set t" by auto
    then show ?thesis
    proof
      assume "r = h" then show ?thesis by simp
    next
      assume "r \<in> set t"
      with le have "?K h \<le> ?K r" by blast
      with h(2) that(2) show ?thesis
        by (simp add: rank_key_def less_eq_prod_def)
    qed
  qed
  with h show ?thesis by blast
qed

lemma groupby_family_first_group:
  assumes "b \<in> set (groupby_family_first xs)"
  shows "\<exists>h t. filter (\<lambda>r. row_family r = row_family b) xs = h # t
           \<and> b = h\<lparr>row_id := first_notna (map row_id (h # t)),
                    row_name := first_notna (map row_name (h # t))\<rparr>"
proof -
  from assms obtain k where b: "b \<in> set (group_first (filter (\<lambda>r. row_family r = k) xs))"
    by (auto simp: groupby_family_first_def)
  then obtain h t where f: "filter (\<lambda>r. row_family r = k) xs = h # t"
    by (cases "filter (\<lambda>r. row_family r = k) xs") auto
  with b have eq: "b = h\<lparr>row_id := first_notna (map row_id (h # t)),
                    row_name := first_notna (map row_name (h # t))\<rparr>"
    by simp
  have "h \<in> set (filter (\<lambda>r. row_family r = k) xs)"
    by (simp add: f)
  then have "row_family h = k" by simp
  with eq have "row_family b = k" by simp
  with f eq show ?thesis by blast
qed

lemma best_per_family_first_of_group:
  assumes "b \<in> set (best_per_family df)"
  shows "\<exists>h \<in> set df.
           row_family h = row_family b
           \<and> (\<forall>r \<in> set df. row_family r = row_family b \<longrightarrow> rank_key h \<le> rank_key r)
           \<and> (\<exists>i n. b = h\<lparr>row_id := i, row_name := n\<rparr>)
           \<and> (row_id h \<noteq> JNull \<and> row_name h \<noteq> JNull \<longrightarrow> b = h)"
proof -
  let ?s = "sort_key (\<lambda>r. (row_family r, row_score r, row_price_in r, row_price_out r,
                           - row_context r)) df"
  from assms have "b \<in> set (groupby_family_first ?s)"
    by (simp add: best_per_family_def)
  from groupby_family_first_group [OF this] obtain h t where
    f: "filter (\<lambda>r. row_family r = row_family b) ?s = h # t"
    and b: "b = h\<lparr>row_id := first_notna (map row_id (h # t)),
                   row_name := first_notna (map row_name (h # t))\<rparr>"
    by blast
  from group_head_minimal [OF f] have
    h: "h \<in> set df" "row_family h = row_family b"
    and m: "\<forall>r \<in> set df. row_family r = row_family b \<longrightarrow> rank_key h \<le> rank_key r"
    by auto
  have whole: "b = h" if "row_id h \<noteq> JNull" "row_name h \<noteq> JNull"
    using b that by (simp add: first_notna_Cons)
  from h m b whole show ?thesis
    by blast
qed

lemma best_per_family_named:
  assumes "\<forall>r \<in> set df. row_id r \<noteq> JNull \<and> row_name r \<noteq> JNull"
    and "b \<in> set (best_per_family df)"
  shows "b \<in> set df \<and> (\<forall>r \<in> set df. row_family r = row_family b \<longrightarrow> rank_key b \<le> rank_key r)"
proof -
  from best_per_family_first_of_group [OF assms(2)] obtain h where
    h: "h \<in> set df" and m: "\<forall>r \<in> set df. row_family r = row_family b \<longrightarrow> rank_key h \<le> rank_key r"
    and w: "row_id h \<noteq> JNull \<and> row_name h \<noteq> JNull \<longrightarrow> b = h"
    by blast
  from assms(1) h w have "b = h" by blast
  with h m show ?thesis by blast
qed

text \<open>
  C7 does not hold of \<open>best_per_family\<close>: the better model of family \<open>acme\<close> has no
  name, and the row returned for the family carries its id, prices and score together
  with the name of the other model of the family. That row is no row of the normalized
  set, so it is not the group's first element. (One row per family and the final order
  by score do hold, and so does the whole claim on a set in which no id or name is null:
  \<open>best_per_family_families\<close>, \<open>best_per_family_sorted\<close>, \<open>best_per_family_named\<close>.)
\<close>

theorem best_per_family_mixes_rows:
  "normalize decimal_builtins [acme_a, acme_b, other_c] = Inr [row_a, row_b, row_c]
   \<and> best_per_family [row_a, row_b, row_c] = [row_a\<lparr>row_name := JStr ''B''\<rparr>, row_c]
   \<and> row_a\<lparr>row_name := JStr ''B''\<rparr> \<notin> set [row_a, row_b, row_c]"
  by code_simp

end
